theory Spec2Isabelle
  imports Complex_Main "HOL-Library.AList"
begin

section \<open>Exceptions\<close>

text \<open>
  The exceptions that the modelled code paths can raise. Every raise of the source is an
  \<open>Inl\<close> result of the model. \<open>AsyncioTimeoutError\<close> is what \<open>asyncio.wait_for\<close> raises
  when the awaited operation does not finish in time; \<open>OtherException\<close> stands for any
  other subclass of \<open>Exception\<close>, told apart by its text.
\<close>

datatype exc =
    IndexError
  | KeyError
  | TypeError
  | AsyncioTimeoutError
  | CircuitBreakerOpenException
  | CircuitBreakerTimeoutException
  | OtherException string

section \<open>Failure statistics (class CircuitBreakerStats)\<close>

text \<open>
  Clock readings (\<open>time.time()\<close>) are real numbers handed to each operation by its caller;
  the rounding of floating-point arithmetic is not modelled.
\<close>

record CircuitBreakerStats =
  window_size :: int
  requests :: "bool list"
  failure_count :: int
  success_count :: int
  last_failure_time :: "real option"

definition CircuitBreakerStats_init :: "int \<Rightarrow> CircuitBreakerStats" where
  "CircuitBreakerStats_init ws =
     \<lparr>window_size = ws, requests = [], failure_count = 0, success_count = 0,
      last_failure_time = None\<rparr>"

text \<open>
  \<open>_add_request\<close>: when the window is full the oldest outcome is popped from the front and
  its counter is decremented; \<open>pop(0)\<close> on an empty list raises IndexError (this happens
  exactly when \<open>window_size \<le> 0\<close> and nothing is stored), before anything is mutated.
\<close>

definition add_request :: "bool \<Rightarrow> CircuitBreakerStats \<Rightarrow> exc + CircuitBreakerStats" where
  "add_request success s =
     (if int (length (requests s)) \<ge> window_size s then
        (case requests s of
           [] \<Rightarrow> Inl IndexError
         | removed # rest \<Rightarrow>
             (let s1 = s\<lparr>requests := rest\<rparr>;
                  s2 = (if removed then s1\<lparr>success_count := success_count s1 - 1\<rparr>
                        else s1\<lparr>failure_count := failure_count s1 - 1\<rparr>)
              in Inr (s2\<lparr>requests := requests s2 @ [success]\<rparr>)))
      else Inr (s\<lparr>requests := requests s @ [success]\<rparr>))"

definition record_success :: "CircuitBreakerStats \<Rightarrow> exc + CircuitBreakerStats" where
  "record_success s =
     (case add_request True s of
        Inl e \<Rightarrow> Inl e
      | Inr s1 \<Rightarrow> Inr (s1\<lparr>success_count := success_count s1 + 1\<rparr>))"

definition record_failure :: "real \<Rightarrow> CircuitBreakerStats \<Rightarrow> exc + CircuitBreakerStats" where
  "record_failure now s =
     (case add_request False s of
        Inl e \<Rightarrow> Inl e
      | Inr s1 \<Rightarrow>
          Inr (s1\<lparr>failure_count := failure_count s1 + 1, last_failure_time := Some now\<rparr>))"

definition failure_rate :: "CircuitBreakerStats \<Rightarrow> real" where
  "failure_rate s =
     (let total = length (requests s)
      in if total = 0 then 0 else real_of_int (failure_count s) / real total)"

definition total_requests :: "CircuitBreakerStats \<Rightarrow> int" where
  "total_requests s = int (length (requests s))"

text \<open>
  A sequence of recordings on one statistics object. A recording that raises has not
  touched the object, so the object after it is the object before it.
\<close>

datatype stats_op = RecordSuccess | RecordFailure real

fun stats_outcome :: "stats_op \<Rightarrow> bool" where
  "stats_outcome RecordSuccess = True"
| "stats_outcome (RecordFailure t) = False"

fun stats_apply :: "stats_op \<Rightarrow> CircuitBreakerStats \<Rightarrow> exc + CircuitBreakerStats" where
  "stats_apply RecordSuccess s = record_success s"
| "stats_apply (RecordFailure t) s = record_failure t s"

definition stats_after :: "stats_op \<Rightarrow> CircuitBreakerStats \<Rightarrow> CircuitBreakerStats" where
  "stats_after op s = (case stats_apply op s of Inl e \<Rightarrow> s | Inr s1 \<Rightarrow> s1)"

fun stats_run :: "stats_op list \<Rightarrow> CircuitBreakerStats \<Rightarrow> CircuitBreakerStats" where
  "stats_run [] s = s"
| "stats_run (op # ops) s = stats_run ops (stats_after op s)"

section \<open>Circuit breaker (class CircuitBreaker)\<close>

datatype CircuitState = CLOSED | OPEN | HALF_OPEN

text \<open>
  \<open>expected_exception\<close> is a class (or tuple of classes) in the source, used only in an
  \<open>except\<close> clause; it is modelled by the predicate "is an instance of it".
\<close>

record CircuitBreakerConfig =
  failure_threshold :: int
  recovery_timeout :: int
  success_threshold :: int
  timeout :: real
  expected_exception :: "exc \<Rightarrow> bool"

definition CircuitBreakerConfig_default :: CircuitBreakerConfig where
  "CircuitBreakerConfig_default =
     \<lparr>failure_threshold = 5, recovery_timeout = 60, success_threshold = 3, timeout = 30,
      expected_exception = (\<lambda>e. True)\<rparr>"

record ('a, 'v) CircuitBreaker =
  name :: string
  config :: CircuitBreakerConfig
  fallback :: "('a \<Rightarrow> exc + 'v) option"
  state :: CircuitState
  stats :: CircuitBreakerStats
  last_state_change :: real
  half_open_success_count :: int

definition CircuitBreaker_init ::
  "string \<Rightarrow> CircuitBreakerConfig \<Rightarrow> ('a \<Rightarrow> exc + 'v) option \<Rightarrow> real \<Rightarrow> ('a, 'v) CircuitBreaker"
where
  "CircuitBreaker_init nm cfg fb now =
     \<lparr>name = nm, config = cfg, fallback = fb, state = CLOSED,
      stats = CircuitBreakerStats_init 100, last_state_change = now,
      half_open_success_count = 0\<rparr>"

definition check_state_transition ::
  "real \<Rightarrow> ('a, 'v) CircuitBreaker \<Rightarrow> ('a, 'v) CircuitBreaker" where
  "check_state_transition now cb =
     (if state cb = OPEN then
        (if now - last_state_change cb \<ge> real_of_int (recovery_timeout (config cb)) then
           cb\<lparr>state := HALF_OPEN, half_open_success_count := 0, last_state_change := now\<rparr>
         else cb)
      else if state cb = CLOSED then
        (if failure_count (stats cb) \<ge> failure_threshold (config cb) \<and>
            total_requests (stats cb) \<ge> failure_threshold (config cb) then
           cb\<lparr>state := OPEN, last_state_change := now\<rparr>
         else cb)
      else cb)"

definition on_success ::
  "real \<Rightarrow> ('a, 'v) CircuitBreaker \<Rightarrow> exc + ('a, 'v) CircuitBreaker" where
  "on_success now cb =
     (case record_success (stats cb) of
        Inl e \<Rightarrow> Inl e
      | Inr st \<Rightarrow>
          (let cb1 = cb\<lparr>stats := st\<rparr> in
           if state cb1 = HALF_OPEN then
             (let cb2 = cb1\<lparr>half_open_success_count := half_open_success_count cb1 + 1\<rparr> in
              if half_open_success_count cb2 \<ge> success_threshold (config cb2) then
                Inr (cb2\<lparr>state := CLOSED, last_state_change := now,
                         half_open_success_count := 0\<rparr>)
              else Inr cb2)
           else Inr cb1))"

definition on_failure ::
  "real \<Rightarrow> ('a, 'v) CircuitBreaker \<Rightarrow> exc + ('a, 'v) CircuitBreaker" where
  "on_failure now cb =
     (case record_failure now (stats cb) of
        Inl e \<Rightarrow> Inl e
      | Inr st \<Rightarrow>
          (let cb1 = cb\<lparr>stats := st\<rparr> in
           if state cb1 = HALF_OPEN then
             Inr (cb1\<lparr>state := OPEN, last_state_change := now, half_open_success_count := 0\<rparr>)
           else Inr cb1))"

text \<open>
  What awaiting the wrapped operation under \<open>asyncio.wait_for\<close> can do: return a value,
  raise, or still be running when the per-call timeout fires (\<open>Hangs\<close>), in which case
  \<open>wait_for\<close> raises \<open>asyncio.TimeoutError\<close>.
\<close>

datatype 'v outcome = Returns 'v | Raises exc | Hangs

definition wait_for :: "'v outcome \<Rightarrow> exc + 'v" where
  "wait_for r =
     (case r of Returns v \<Rightarrow> Inr v | Raises e \<Rightarrow> Inl e | Hangs \<Rightarrow> Inl AsyncioTimeoutError)"

definition execute_fallback :: "('a \<Rightarrow> exc + 'v) \<Rightarrow> 'a \<Rightarrow> exc + 'v" where
  "execute_fallback fb args = fb args"

text \<open>
  \<open>call\<close> returns what the caller sees (a value or the exception raised), the breaker
  afterwards, and whether the wrapped operation was invoked. \<open>now\<close> is the clock at the
  state check, \<open>now'\<close> the clock when the outcome is recorded. The \<open>except\<close> clauses are
  tried in the order of the source: first \<open>expected_exception\<close>, then
  \<open>asyncio.TimeoutError\<close>; \<open>_on_success\<close> runs inside the \<open>try\<close> block.
\<close>

definition call ::
  "real \<Rightarrow> real \<Rightarrow> ('a \<Rightarrow> 'v outcome) \<Rightarrow> 'a \<Rightarrow> ('a, 'v) CircuitBreaker
     \<Rightarrow> (exc + 'v) \<times> ('a, 'v) CircuitBreaker \<times> bool" where
  "call now now' func args cb =
     (let cb1 = check_state_transition now cb in
      if state cb1 = OPEN then
        (case fallback cb1 of
           Some fb \<Rightarrow> (execute_fallback fb args, cb1, False)
         | None \<Rightarrow> (Inl CircuitBreakerOpenException, cb1, False))
      else
        (let tried =
               (case wait_for (func args) of
                  Inl e \<Rightarrow> (Inl e, cb1)
                | Inr result \<Rightarrow>
                    (case on_success now' cb1 of
                       Inl e \<Rightarrow> (Inl e, cb1)
                     | Inr cb2 \<Rightarrow> (Inr result, cb2)))
         in case tried of
              (Inr result, cb2) \<Rightarrow> (Inr result, cb2, True)
            | (Inl e, cb2) \<Rightarrow>
                if expected_exception (config cb2) e then
                  (case on_failure now' cb2 of
                     Inl e' \<Rightarrow> (Inl e', cb2, True)
                   | Inr cb3 \<Rightarrow> (Inl e, cb3, True))
                else if e = AsyncioTimeoutError then
                  (case on_failure now' cb2 of
                     Inl e' \<Rightarrow> (Inl e', cb2, True)
                   | Inr cb3 \<Rightarrow> (Inl CircuitBreakerTimeoutException, cb3, True))
                else (Inl e, cb2, True)))"

text \<open>Consistency of the running counters with the window content.\<close>

definition stats_inv :: "CircuitBreakerStats \<Rightarrow> bool" where
  "stats_inv s \<longleftrightarrow>
     success_count s = int (length (filter id (requests s))) \<and>
     failure_count s = int (length (filter Not (requests s))) \<and>
     int (length (requests s)) \<le> window_size s"


fun on_successes :: "real list \<Rightarrow> ('a, 'v) CircuitBreaker \<Rightarrow> exc + ('a, 'v) CircuitBreaker" where
  "on_successes [] cb = Inr cb"
| "on_successes (t # ts) cb =
     (case on_success t cb of Inl e \<Rightarrow> Inl e | Inr cb1 \<Rightarrow> on_successes ts cb1)"


section \<open>Python values and dictionaries\<close>

text \<open>
  The cached values (\<open>Any\<close> in the source) are modelled by the picklable Python values
  built from None, booleans, integers, strings, byte strings, lists and dictionaries
  with string keys. A dictionary is an association list in insertion order with one
  entry per key: \<open>AList.update\<close> overwrites in place or appends, as assignment to
  \<open>d[k]\<close> does, and \<open>AList.delete\<close> is \<open>del d[k]\<close>.
\<close>

type_synonym bytes = "nat list"

datatype pyval =
    PNone
  | PBool bool
  | PInt int
  | PStr string
  | PBytes bytes
  | PList "pyval list"
  | PDict "(string \<times> pyval) list"


fun truthy :: "pyval \<Rightarrow> bool" where
  "truthy PNone = False"
| "truthy (PBool b) = b"
| "truthy (PInt i) = (i \<noteq> 0)"
| "truthy (PStr s) = (s \<noteq> [])"
| "truthy (PBytes b) = (b \<noteq> [])"
| "truthy (PList xs) = (xs \<noteq> [])"
| "truthy (PDict d) = (d \<noteq> [])"

text \<open>Python's \<open>xs[:n]\<close>, also for negative \<open>n\<close>.\<close>

definition slice_to :: "int \<Rightarrow> 'a list \<Rightarrow> 'a list" where
  "slice_to n xs = (if 0 \<le> n then take (nat n) xs else take (nat (int (length xs) + n)) xs)"


section \<open>Result consolidation (ResilientBookEnrichmentService.enrich\_book\_data)\<close>




section \<open>Cache (class SmartCacheManager)\<close>

text \<open>
  \<open>pickle\<close> and \<open>gzip\<close> are libraries outside the repository; the cache takes them as a
  parameter. Every modelled value can be pickled, so \<open>pickle_dumps\<close> is total; loading
  and decompressing can raise.
\<close>

record codec =
  pickle_dumps :: "pyval \<Rightarrow> bytes"
  pickle_loads :: "bytes \<Rightarrow> exc + pyval"
  gzip_compress :: "bytes \<Rightarrow> bytes"
  gzip_decompress :: "bytes \<Rightarrow> exc + bytes"

datatype CacheStrategy = LRU | LFU | TTL | WRITE_THROUGH | WRITE_BEHIND

record CacheEntry =
  entry_value :: pyval
  created_at :: real
  accessed_at :: real
  access_count :: int
  ttl :: "real option"

definition is_expired :: "real \<Rightarrow> CacheEntry \<Rightarrow> bool" where
  "is_expired now entry =
     (case ttl entry of None \<Rightarrow> False | Some t \<Rightarrow> now - created_at entry > t)"

record SmartCacheManager =
  max_size :: int
  default_ttl :: "real option"
  strategy :: CacheStrategy
  enable_compression :: bool
  cache :: "(string \<times> CacheEntry) list"
  access_order :: "string list"
  frequency_counter :: "(string \<times> int) list"
  hits :: int
  misses :: int
  evictions :: int
  compressions :: int

definition SmartCacheManager_init ::
  "int \<Rightarrow> real option \<Rightarrow> CacheStrategy \<Rightarrow> bool \<Rightarrow> SmartCacheManager" where
  "SmartCacheManager_init ms dt strat ec =
     \<lparr>max_size = ms, default_ttl = dt, strategy = strat, enable_compression = ec,
      cache = [], access_order = [], frequency_counter = [],
      hits = 0, misses = 0, evictions = 0, compressions = 0\<rparr>"

definition delete :: "string \<Rightarrow> SmartCacheManager \<Rightarrow> bool \<times> SmartCacheManager" where
  "delete key cm =
     (if key \<notin> fst ` set (cache cm) then (False, cm)
      else
        (let cm1 = cm\<lparr>cache := AList.delete key (cache cm)\<rparr>;
             cm2 = (if key \<in> set (access_order cm1)
                    then cm1\<lparr>access_order := remove1 key (access_order cm1)\<rparr> else cm1);
             cm3 = (if key \<in> fst ` set (frequency_counter cm2)
                    then cm2\<lparr>frequency_counter := AList.delete key (frequency_counter cm2)\<rparr>
                    else cm2)
         in (True, cm3)))"

text \<open>The three loops of \<open>_evict_entries\<close>, one per strategy that evicts.\<close>

fun evict_lru :: "nat \<Rightarrow> SmartCacheManager \<Rightarrow> SmartCacheManager" where
  "evict_lru 0 cm = cm"
| "evict_lru (Suc n) cm =
     (case access_order cm of
        [] \<Rightarrow> evict_lru n cm
      | oldest_key # rest \<Rightarrow>
          (let cm1 = cm\<lparr>access_order := rest\<rparr> in
           evict_lru n
             (if oldest_key \<in> fst ` set (cache cm1)
              then cm1\<lparr>cache := AList.delete oldest_key (cache cm1),
                       evictions := evictions cm1 + 1\<rparr>
              else cm1)))"

definition evict_lfu_key :: "string \<Rightarrow> SmartCacheManager \<Rightarrow> SmartCacheManager" where
  "evict_lfu_key key cm =
     (if key \<in> fst ` set (cache cm)
      then cm\<lparr>cache := AList.delete key (cache cm),
              frequency_counter := AList.delete key (frequency_counter cm),
              evictions := evictions cm + 1\<rparr>
      else cm)"

definition evict_ttl_key :: "string \<Rightarrow> SmartCacheManager \<Rightarrow> SmartCacheManager" where
  "evict_ttl_key key cm = (let cm1 = snd (delete key cm) in cm1\<lparr>evictions := evictions cm1 + 1\<rparr>)"

definition evict_entries :: "real \<Rightarrow> int \<Rightarrow> SmartCacheManager \<Rightarrow> SmartCacheManager" where
  "evict_entries now count cm =
     (if strategy cm = LRU then
        evict_lru (nat (min count (int (length (access_order cm))))) cm
      else if strategy cm = LFU then
        (if frequency_counter cm \<noteq> [] then
           (let sorted_by_freq = sort_key snd (frequency_counter cm)
            in fold evict_lfu_key (map fst (slice_to count sorted_by_freq)) cm)
         else cm)
      else if strategy cm = TTL then
        (let expired_keys = map fst (filter (\<lambda>(key, entry). is_expired now entry) (cache cm));
             cm1 = fold evict_ttl_key (slice_to count expired_keys) cm;
             remaining = count - int (length expired_keys)
         in if remaining > 0 then
              (let oldest_entries = sort_key (\<lambda>x. created_at (snd x)) (cache cm1)
               in fold evict_ttl_key (map fst (slice_to remaining oldest_entries)) cm1)
            else cm1)
      else cm)"

definition compress_if_needed ::
  "codec \<Rightarrow> pyval \<Rightarrow> SmartCacheManager \<Rightarrow> pyval \<times> SmartCacheManager" where
  "compress_if_needed cd v cm =
     (if \<not> enable_compression cm then (v, cm)
      else
        (let serialized = pickle_dumps cd v in
         if length serialized > 1024 then
           (let compressed = gzip_compress cd serialized in
            (PDict [(''_compressed'', PBool True), (''_data'', PBytes compressed)],
             cm\<lparr>compressions := compressions cm + 1\<rparr>))
         else (v, cm)))"

definition decompress_if_needed :: "codec \<Rightarrow> pyval \<Rightarrow> exc + pyval" where
  "decompress_if_needed cd v =
     (case v of
        PDict d \<Rightarrow>
          (if (case map_of d ''_compressed'' of None \<Rightarrow> False | Some flag \<Rightarrow> truthy flag) then
             (case map_of d ''_data'' of
                None \<Rightarrow> Inl KeyError
              | Some (PBytes data) \<Rightarrow>
                  (case gzip_decompress cd data of
                     Inl e \<Rightarrow> Inl e
                   | Inr decompressed_data \<Rightarrow> pickle_loads cd decompressed_data)
              | Some other \<Rightarrow> Inl TypeError)
           else Inr v)
      | other \<Rightarrow> Inr v)"

definition get ::
  "codec \<Rightarrow> real \<Rightarrow> string \<Rightarrow> SmartCacheManager \<Rightarrow> (exc + pyval) \<times> SmartCacheManager" where
  "get cd now key cm =
     (case map_of (cache cm) key of
        None \<Rightarrow> (Inr PNone, cm\<lparr>misses := misses cm + 1\<rparr>)
      | Some entry \<Rightarrow>
          if is_expired now entry then
            (let cm1 = snd (delete key cm) in (Inr PNone, cm1\<lparr>misses := misses cm1 + 1\<rparr>))
          else
            (let entry1 = entry\<lparr>accessed_at := now, access_count := access_count entry + 1\<rparr>;
                 cm1 = cm\<lparr>cache := AList.update key entry1 (cache cm)\<rparr>;
                 cm2 = (if strategy cm1 = LRU then
                          cm1\<lparr>access_order :=
                                (if key \<in> set (access_order cm1)
                                 then remove1 key (access_order cm1)
                                 else access_order cm1) @ [key]\<rparr>
                        else cm1);
                 cm3 = (if strategy cm2 = LFU then
                          cm2\<lparr>frequency_counter :=
                                AList.update key
                                  ((case map_of (frequency_counter cm2) key of
                                      None \<Rightarrow> 0 | Some n \<Rightarrow> n) + 1)
                                  (frequency_counter cm2)\<rparr>
                        else cm2);
                 cm4 = cm3\<lparr>hits := hits cm3 + 1\<rparr>
             in (decompress_if_needed cd (entry_value entry1), cm4)))"

text \<open>\<open>ttl or self.default_ttl\<close>: a ttl of None or of zero is falsy.\<close>

definition ttl_or_default :: "real option \<Rightarrow> real option \<Rightarrow> real option" where
  "ttl_or_default t dflt = (case t of None \<Rightarrow> dflt | Some x \<Rightarrow> if x = 0 then dflt else Some x)"

definition set_entry ::
  "codec \<Rightarrow> real \<Rightarrow> string \<Rightarrow> pyval \<Rightarrow> real option \<Rightarrow> bool \<Rightarrow> SmartCacheManager
     \<Rightarrow> bool \<times> SmartCacheManager" where
  "set_entry cd now key v t force cm =
     (let cm1 = (if int (length (cache cm)) \<ge> max_size cm \<and> key \<notin> fst ` set (cache cm) then
                   (if \<not> force then evict_entries now 1 cm else evict_entries now 1 cm)
                 else cm);
          (compressed_value, cm2) = compress_if_needed cd v cm1;
          entry = \<lparr>entry_value = compressed_value, created_at = now, accessed_at = now,
                   access_count = 1, ttl = ttl_or_default t (default_ttl cm2)\<rparr>;
          was_update = (key \<in> fst ` set (cache cm2));
          cm3 = cm2\<lparr>cache := AList.update key entry (cache cm2)\<rparr>;
          cm4 = (if strategy cm3 = LRU then
                   cm3\<lparr>access_order :=
                         (if key \<in> set (access_order cm3)
                          then remove1 key (access_order cm3)
                          else access_order cm3) @ [key]\<rparr>
                 else cm3);
          cm5 = (if strategy cm4 = LFU then
                   (if \<not> was_update then
                      cm4\<lparr>frequency_counter := AList.update key 1 (frequency_counter cm4)\<rparr>
                    else cm4)
                 else cm4)
      in (True, cm5))"

text \<open>
  The wrapper built by the \<open>cached\<close> decorator. The key function and the cache manager
  are given; the last component of the result tells whether the wrapped function ran.
  \<open>now\<close> is the clock at the lookup, \<open>now'\<close> the clock when the result is stored.
\<close>

definition cached_wrapper ::
  "codec \<Rightarrow> ('a \<Rightarrow> string) \<Rightarrow> real option \<Rightarrow> ('a \<Rightarrow> exc + pyval) \<Rightarrow> real \<Rightarrow> real \<Rightarrow> 'a
     \<Rightarrow> SmartCacheManager \<Rightarrow> (exc + pyval) \<times> SmartCacheManager \<times> bool" where
  "cached_wrapper cd key_func t func now now' args cm =
     (let cache_key = key_func args in
      case get cd now cache_key cm of
        (Inl e, cm1) \<Rightarrow> (Inl e, cm1, False)
      | (Inr cached_result, cm1) \<Rightarrow>
          if cached_result \<noteq> PNone then (Inr cached_result, cm1, False)
          else
            (case func args of
               Inl e \<Rightarrow> (Inl e, cm1, True)
             | Inr result \<Rightarrow>
                 (let cm2 = snd (set_entry cd now' cache_key result t False cm1)
                  in (Inr result, cm2, True))))"

text \<open>Sequences of cache operations, each with the clock reading it runs at.\<close>

datatype cache_op =
    Get real string
  | Set real string pyval "real option" bool
  | Delete string

fun cache_apply :: "codec \<Rightarrow> cache_op \<Rightarrow> SmartCacheManager \<Rightarrow> SmartCacheManager" where
  "cache_apply cd (Get now key) cm = snd (get cd now key cm)"
| "cache_apply cd (Set now key v t force) cm = snd (set_entry cd now key v t force cm)"
| "cache_apply cd (Delete key) cm = snd (delete key cm)"

fun cache_run :: "codec \<Rightarrow> cache_op list \<Rightarrow> SmartCacheManager \<Rightarrow> SmartCacheManager" where
  "cache_run cd [] cm = cm"
| "cache_run cd (op # ops) cm = cache_run cd ops (cache_apply cd op cm)"

text \<open>
  A value that \<open>_decompress_if_needed\<close> takes for a compression wrapper: a dictionary
  whose entry \<open>_compressed\<close> is truthy.
\<close>

definition looks_compressed :: "pyval \<Rightarrow> bool" where
  "looks_compressed v =
     (case v of
        PDict d \<Rightarrow> (case map_of d ''_compressed'' of None \<Rightarrow> False | Some flag \<Rightarrow> truthy flag)
      | other \<Rightarrow> False)"

text \<open>An entry with the given ttl has not expired once the given time has elapsed.\<close>

definition not_expired_after :: "real \<Rightarrow> real option \<Rightarrow> bool" where
  "not_expired_after elapsed t = (case t of None \<Rightarrow> True | Some d \<Rightarrow> elapsed \<le> d)"

text \<open>
  The first step of \<open>set\<close>, the space check, and the entry \<open>set\<close> then stores; both
  are read off \<open>set_entry\<close> (lemma \<open>set_entry_fields\<close>).
\<close>

definition make_room :: "real \<Rightarrow> string \<Rightarrow> SmartCacheManager \<Rightarrow> SmartCacheManager" where
  "make_room now key cm =
     (if int (length (cache cm)) \<ge> max_size cm \<and> key \<notin> fst ` set (cache cm)
      then evict_entries now 1 cm else cm)"

definition new_entry ::
  "codec \<Rightarrow> real \<Rightarrow> string \<Rightarrow> pyval \<Rightarrow> real option \<Rightarrow> SmartCacheManager \<Rightarrow> CacheEntry" where
  "new_entry cd now key v t cm =
     \<lparr>entry_value = fst (compress_if_needed cd v (make_room now key cm)),
      created_at = now, accessed_at = now, access_count = 1,
      ttl = ttl_or_default t (default_ttl cm)\<rparr>"

text \<open>
  Well-formedness of a cache that evicts: one entry per key, at most \<open>max_size\<close> entries,
  and the bookkeeping of the strategy in step with the stored keys.
\<close>

definition cache_inv :: "SmartCacheManager \<Rightarrow> bool" where
  "cache_inv cm \<longleftrightarrow>
     strategy cm \<in> {LRU, LFU, TTL} \<and> 1 \<le> max_size cm \<and>
     distinct (map fst (cache cm)) \<and> int (length (cache cm)) \<le> max_size cm \<and>
     (strategy cm = LRU \<longrightarrow>
        distinct (access_order cm) \<and> set (access_order cm) = fst ` set (cache cm)) \<and>
     (strategy cm = LFU \<longrightarrow> fst ` set (frequency_counter cm) = fst ` set (cache cm))"

section \<open>Properties of the failure statistics\<close>

lemma add_request_cases:
  "add_request b s =
     (if int (length (requests s)) \<ge> window_size s then
        (if requests s = [] then Inl IndexError
         else Inr (s\<lparr>requests := tl (requests s) @ [b],
                     success_count := success_count s - (if hd (requests s) then 1 else 0),
                     failure_count := failure_count s - (if hd (requests s) then 0 else 1)\<rparr>))
      else Inr (s\<lparr>requests := requests s @ [b]\<rparr>))"
  by (cases "requests s") (simp_all add: add_request_def Let_def)

lemma stats_after_requests:
  "requests (stats_after op s) =
     (if int (length (requests s)) \<ge> window_size s then
        (if requests s = [] then [] else tl (requests s) @ [stats_outcome op])
      else requests s @ [stats_outcome op])"
  by (cases op) (simp_all add: stats_after_def record_success_def record_failure_def add_request_cases)

lemma stats_after_window: "window_size (stats_after op s) = window_size s"
  by (cases op) (simp_all add: stats_after_def record_success_def record_failure_def add_request_cases)

lemma stats_after_inv: "stats_inv s \<Longrightarrow> stats_inv (stats_after op s)"
  by (cases op; cases "requests s")
     (auto simp add: stats_inv_def stats_after_def record_success_def record_failure_def add_request_cases)

lemma stats_run_append: "stats_run (xs @ ys) s = stats_run ys (stats_run xs s)"
  by (induction xs arbitrary: s) simp_all

lemma stats_run_inv: "stats_inv s \<Longrightarrow> stats_inv (stats_run ops s)"
  by (induction ops arbitrary: s) (simp_all add: stats_after_inv)

lemma stats_run_window: "window_size (stats_run ops s) = window_size s"
  by (induction ops arbitrary: s) (simp_all add: stats_after_window)

lemma stats_init_inv: "0 \<le> N \<Longrightarrow> stats_inv (CircuitBreakerStats_init N)"
  by (simp add: stats_inv_def CircuitBreakerStats_init_def)

lemma stats_run_requests:
  assumes "0 \<le> N"
  shows "requests (stats_run ops (CircuitBreakerStats_init N)) =
           drop (length ops - nat N) (map stats_outcome ops)"
proof (induction ops rule: rev_induct)
  case Nil
  show ?case by (simp add: CircuitBreakerStats_init_def)
next
  case (snoc op ops)
  let ?s = "stats_run ops (CircuitBreakerStats_init N)"
  have w: "window_size ?s = N"
    by (simp add: stats_run_window CircuitBreakerStats_init_def)
  have len: "length (requests ?s) = length ops - (length ops - nat N)"
    by (simp add: snoc.IH)
  show ?case
  proof (cases "int (length (requests ?s)) \<ge> N")
    case True
    then have ge: "nat N \<le> length ops" using len assms by linarith
    show ?thesis
    proof (cases "requests ?s = []")
      case True
      then have "N = 0" using \<open>int (length (requests ?s)) \<ge> N\<close> assms by simp
      then show ?thesis using True w
        by (simp add: stats_run_append stats_after_requests)
    next
      case False
      then have pos: "0 < nat N" using len ge by (cases "nat N") auto
      have "tl (requests ?s) = drop (Suc (length ops - nat N)) (map stats_outcome ops)"
        by (simp add: snoc.IH drop_Suc tl_drop)
      moreover have "Suc (length ops) - nat N = Suc (length ops - nat N)"
        using ge by simp
      moreover have "Suc (length ops - nat N) \<le> length ops" using pos ge by linarith
      ultimately show ?thesis using True False w
        by (simp add: stats_run_append stats_after_requests)
    qed
  next
    case False
    then have "length ops < nat N" using len assms by linarith
    then show ?thesis using False w snoc.IH
      by (simp add: stats_run_append stats_after_requests)
  qed
qed

lemma failure_rate_bounds:
  "stats_inv s \<Longrightarrow> 0 \<le> failure_rate s \<and> failure_rate s \<le> 1"
proof -
  assume a: "stats_inv s"
  have "length (filter Not (requests s)) \<le> length (requests s)" by simp
  then show ?thesis using a
    by (auto simp add: failure_rate_def stats_inv_def Let_def divide_le_eq_1)
qed

text \<open>
  Claim C7. For every sequence of \<open>record_success\<close> and \<open>record_failure\<close> operations on
  a fresh window of capacity \<open>N\<close>, after each operation the window holds the most recent
  outcomes, at most \<open>N\<close> of them (the oldest leave first, in FIFO order, once the window
  is full), the success and failure counters equal the numbers of successes and failures
  present in the window, and \<open>failure_rate\<close> is the failure counter divided by the window
  length, a number between 0 and 1.
\<close>

theorem failure_window_invariant:
  assumes "0 \<le> N"
  shows "let s = stats_run ops (CircuitBreakerStats_init N) in
           requests s = drop (length ops - nat N) (map stats_outcome ops) \<and>
           int (length (requests s)) \<le> N \<and>
           success_count s = int (length (filter id (requests s))) \<and>
           failure_count s = int (length (filter Not (requests s))) \<and>
           0 \<le> failure_rate s \<and> failure_rate s \<le> 1 \<and>
           (requests s \<noteq> [] \<longrightarrow>
              failure_rate s = real_of_int (failure_count s) / real (length (requests s)))"
proof -
  let ?s = "stats_run ops (CircuitBreakerStats_init N)"
  have inv: "stats_inv ?s" using assms by (simp add: stats_run_inv stats_init_inv)
  have w: "window_size ?s = N" by (simp add: stats_run_window CircuitBreakerStats_init_def)
  have r: "requests ?s = drop (length ops - nat N) (map stats_outcome ops)"
    using assms by (rule stats_run_requests)
  have fr: "requests ?s \<noteq> [] \<longrightarrow>
              failure_rate ?s = real_of_int (failure_count ?s) / real (length (requests ?s))"
    by (simp add: failure_rate_def Let_def)
  show ?thesis
    unfolding Let_def using inv w r fr failure_rate_bounds[OF inv]
    by (simp add: stats_inv_def)
qed

theorem failure_window_invariant_witness:
  "(0::int) \<le> 2 \<and>
   (let s = stats_run [RecordFailure 1, RecordSuccess, RecordFailure 2]
              (CircuitBreakerStats_init 2) in
      requests s = [True, False] \<and> int (length (requests s)) \<le> 2 \<and>
      success_count s = 1 \<and> failure_count s = 1 \<and> failure_rate s = 1 / 2)"
  using failure_window_invariant [of 2 "[RecordFailure 1, RecordSuccess, RecordFailure 2]"]
  by (simp add: Let_def failure_rate_def)

section \<open>Properties of the circuit breaker\<close>

subsection \<open>Opening\<close>

lemma stats_apply_ok:
  "0 < window_size s \<Longrightarrow> stats_apply op s = Inr (stats_after op s)"
  by (cases op) (auto simp add: stats_after_def record_success_def record_failure_def add_request_cases)








lemma stats_after_inv_window: "0 < window_size s \<Longrightarrow> 0 < window_size (stats_after op s)"
  by (simp add: stats_after_window)




text \<open>
  The counters are bounded by the window: a threshold above the window size is never
  reached, and such a breaker stays closed whatever is recorded.
\<close>

lemma threshold_above_window_stays_closed:
  assumes "stats_inv (stats cb)" and "window_size (stats cb) < failure_threshold (config cb)"
    and "state cb = CLOSED"
  shows "check_state_transition now cb = cb"
proof -
  have "total_requests (stats cb) \<le> window_size (stats cb)"
    using assms(1) by (simp add: stats_inv_def total_requests_def)
  then have "\<not> failure_threshold (config cb) \<le> total_requests (stats cb)"
    using assms(2) by linarith
  then show ?thesis using assms(3) by (simp add: check_state_transition_def)
qed

subsection \<open>Half-open\<close>

lemma record_success_ok:
  "0 < window_size s \<Longrightarrow>
     \<exists>s'. record_success s = Inr s' \<and> window_size s' = window_size s"
  using stats_apply_ok[of s RecordSuccess] by (simp add: stats_after_window)

lemma record_failure_ok:
  "0 < window_size s \<Longrightarrow>
     \<exists>s'. record_failure t s = Inr s' \<and> window_size s' = window_size s"
  using stats_apply_ok[of s "RecordFailure t"] by (simp add: stats_after_window)

lemma on_success_closed:
  assumes "state cb = CLOSED" and "0 < window_size (stats cb)"
  shows "\<exists>cb'. on_success t cb = Inr cb' \<and> state cb' = CLOSED \<and>
           half_open_success_count cb' = half_open_success_count cb \<and>
           config cb' = config cb \<and> window_size (stats cb') = window_size (stats cb)"
  using record_success_ok[OF assms(2)] assms(1)
  by (auto simp add: on_success_def Let_def)

lemma on_success_half_open:
  assumes "state cb = HALF_OPEN" and "0 < window_size (stats cb)"
  shows "\<exists>cb'. on_success t cb = Inr cb' \<and>
           config cb' = config cb \<and> window_size (stats cb') = window_size (stats cb) \<and>
           (if success_threshold (config cb) \<le> half_open_success_count cb + 1
            then state cb' = CLOSED \<and> half_open_success_count cb' = 0
            else state cb' = HALF_OPEN \<and>
                 half_open_success_count cb' = half_open_success_count cb + 1)"
proof -
  from record_success_ok[OF assms(2)] obtain s' where
    r: "record_success (stats cb) = Inr s'" and w: "window_size s' = window_size (stats cb)"
    by blast
  show ?thesis
  proof (cases "success_threshold (config cb) \<le> half_open_success_count cb + 1")
    case True
    with r w assms(1) show ?thesis by (simp add: on_success_def Let_def)
  next
    case False
    with r w assms(1) show ?thesis by (simp add: on_success_def Let_def)
  qed
qed

lemma on_failure_half_open:
  assumes "state cb = HALF_OPEN" and "0 < window_size (stats cb)"
  shows "\<exists>cb'. on_failure t cb = Inr cb' \<and> state cb' = OPEN \<and>
           half_open_success_count cb' = 0"
  using record_failure_ok[OF assms(2), of t] assms(1)
  by (auto simp add: on_failure_def Let_def)

lemma on_successes_closed:
  "state cb = CLOSED \<Longrightarrow> 0 < window_size (stats cb) \<Longrightarrow>
     \<exists>cb'. on_successes ts cb = Inr cb' \<and> state cb' = CLOSED \<and>
            half_open_success_count cb' = half_open_success_count cb"
proof (induction ts arbitrary: cb)
  case Nil
  then show ?case by simp
next
  case (Cons t ts)
  from on_success_closed[OF Cons.prems, of t] obtain cb1 where
    s: "on_success t cb = Inr cb1" and c: "state cb1 = CLOSED"
    and h: "half_open_success_count cb1 = half_open_success_count cb"
    and w: "window_size (stats cb1) = window_size (stats cb)" by blast
  from Cons.IH[OF c] w Cons.prems(2) obtain cb' where
    "on_successes ts cb1 = Inr cb'" "state cb' = CLOSED"
    "half_open_success_count cb' = half_open_success_count cb1" by auto
  with s h show ?case by simp
qed

lemma on_successes_half_open:
  "state cb = HALF_OPEN \<Longrightarrow> 0 < window_size (stats cb) \<Longrightarrow>
     \<exists>cb'. on_successes ts cb = Inr cb' \<and>
       (if ts \<noteq> [] \<and> success_threshold (config cb) \<le> half_open_success_count cb + int (length ts)
        then state cb' = CLOSED \<and> half_open_success_count cb' = 0
        else state cb' = HALF_OPEN \<and>
             half_open_success_count cb' = half_open_success_count cb + int (length ts) \<and>
             0 < window_size (stats cb'))"
proof (induction ts arbitrary: cb)
  case Nil
  then show ?case by simp
next
  case (Cons t ts)
  from on_success_half_open[OF Cons.prems, of t] obtain cb1 where
    s: "on_success t cb = Inr cb1" and cfg: "config cb1 = config cb"
    and w: "window_size (stats cb1) = window_size (stats cb)"
    and alt: "if success_threshold (config cb) \<le> half_open_success_count cb + 1
            then state cb1 = CLOSED \<and> half_open_success_count cb1 = 0
            else state cb1 = HALF_OPEN \<and>
                 half_open_success_count cb1 = half_open_success_count cb + 1" by blast
  have w1: "0 < window_size (stats cb1)" using w Cons.prems(2) by simp
  show ?case
  proof (cases "success_threshold (config cb) \<le> half_open_success_count cb + 1")
    case True
    with alt have c: "state cb1 = CLOSED" and z: "half_open_success_count cb1 = 0" by simp_all
    from on_successes_closed[OF c w1, of ts] z obtain cb' where
      "on_successes ts cb1 = Inr cb'" "state cb' = CLOSED" "half_open_success_count cb' = 0"
      by auto
    with s True show ?thesis by simp
  next
    case False
    with alt have c: "state cb1 = HALF_OPEN"
      and z: "half_open_success_count cb1 = half_open_success_count cb + 1" by simp_all
    from Cons.IH[OF c w1] obtain cb' where r: "on_successes ts cb1 = Inr cb'"
      and a: "if ts \<noteq> [] \<and> success_threshold (config cb1) \<le> half_open_success_count cb1 + int (length ts)
        then state cb' = CLOSED \<and> half_open_success_count cb' = 0
        else state cb' = HALF_OPEN \<and>
             half_open_success_count cb' = half_open_success_count cb1 + int (length ts) \<and>
             0 < window_size (stats cb')" by blast
    show ?thesis
    proof (cases "ts = []")
      case True
      with a r s z False show ?thesis by simp
    next
      case ne: False
      with a r s z cfg show ?thesis by (auto simp add: algebra_simps)
    qed
  qed
qed

text \<open>
  Claim C6. For an open breaker, once the time since the last state change has reached
  \<open>recovery_timeout\<close>, the state check moves it to HALF_OPEN with the half-open success
  counter at 0. From there, a run of consecutive recorded successes closes the breaker as
  soon as it has at least one and at least \<open>success_threshold\<close> successes (so
  \<open>success_threshold\<close> successes close it), while a shorter run leaves it half-open
  with the counter equal to the length of the run; a single recorded failure in
  HALF_OPEN moves the breaker back to OPEN and resets the counter to 0.
\<close>

theorem half_open_recovery_cycle:
  fixes cb :: "('a, 'v) CircuitBreaker"
  assumes "state cb = OPEN"
    and "real_of_int (recovery_timeout (config cb)) \<le> now - last_state_change cb"
    and "0 < window_size (stats cb)"
  shows "let h = check_state_transition now cb; S = success_threshold (config cb) in
     state h = HALF_OPEN \<and> half_open_success_count h = 0 \<and>
     (\<forall>ts. ts \<noteq> [] \<and> S \<le> int (length ts) \<longrightarrow>
        (\<exists>c. on_successes ts h = Inr c \<and> state c = CLOSED \<and> half_open_success_count c = 0)) \<and>
     (\<forall>ts t. int (length ts) < S \<longrightarrow>
        (\<exists>h'. on_successes ts h = Inr h' \<and> state h' = HALF_OPEN \<and>
              half_open_success_count h' = int (length ts) \<and>
              (\<exists>c. on_failure t h' = Inr c \<and> state c = OPEN \<and> half_open_success_count c = 0)))"
proof -
  let ?h = "check_state_transition now cb"
  have h: "?h = cb\<lparr>state := HALF_OPEN, half_open_success_count := 0, last_state_change := now\<rparr>"
    using assms(1,2) by (simp add: check_state_transition_def)
  have sh: "state ?h = HALF_OPEN" and ch: "half_open_success_count ?h = 0"
    and wh: "0 < window_size (stats ?h)" and cfg: "config ?h = config cb"
    using h assms(3) by simp_all
  have a: "\<forall>ts. ts \<noteq> [] \<and> success_threshold (config cb) \<le> int (length ts) \<longrightarrow>
        (\<exists>c. on_successes ts ?h = Inr c \<and> state c = CLOSED \<and> half_open_success_count c = 0)"
  proof (intro allI impI)
    fix ts :: "real list"
    assume "ts \<noteq> [] \<and> success_threshold (config cb) \<le> int (length ts)"
    with on_successes_half_open[OF sh wh, of ts] ch cfg
    show "\<exists>c. on_successes ts ?h = Inr c \<and> state c = CLOSED \<and> half_open_success_count c = 0"
      by auto
  qed
  have b: "\<forall>ts t. int (length ts) < success_threshold (config cb) \<longrightarrow>
        (\<exists>h'. on_successes ts ?h = Inr h' \<and> state h' = HALF_OPEN \<and>
              half_open_success_count h' = int (length ts) \<and>
              (\<exists>c. on_failure t h' = Inr c \<and> state c = OPEN \<and> half_open_success_count c = 0))"
  proof (intro allI impI)
    fix ts :: "real list" and t :: real
    assume "int (length ts) < success_threshold (config cb)"
    with on_successes_half_open[OF sh wh, of ts] ch cfg
    obtain h' where r: "on_successes ts ?h = Inr h'" and s: "state h' = HALF_OPEN"
      and k: "half_open_success_count h' = int (length ts)" and w: "0 < window_size (stats h')"
      by auto
    from on_failure_half_open[OF s w, of t] r s k
    show "\<exists>h'. on_successes ts ?h = Inr h' \<and> state h' = HALF_OPEN \<and>
              half_open_success_count h' = int (length ts) \<and>
              (\<exists>c. on_failure t h' = Inr c \<and> state c = OPEN \<and> half_open_success_count c = 0)"
      by blast
  qed
  show ?thesis unfolding Let_def using sh ch a b by blast
qed


theorem half_open_recovery_cycle_witness:
  "let cb = (CircuitBreaker_init ''openlibrary'' CircuitBreakerConfig_default None 0
              :: (unit, int) CircuitBreaker)\<lparr>state := OPEN\<rparr>;
       h = check_state_transition 60 cb
   in state cb = OPEN \<and>
      real_of_int (recovery_timeout (config cb)) \<le> 60 - last_state_change cb \<and>
      0 < window_size (stats cb) \<and>
      state h = HALF_OPEN \<and> half_open_success_count h = 0 \<and>
      (case on_successes [61, 62, 63] h of
         Inl e \<Rightarrow> False
       | Inr c \<Rightarrow> state c = CLOSED \<and> half_open_success_count c = 0) \<and>
      (case on_successes [61, 62] h of
         Inl e \<Rightarrow> False
       | Inr h' \<Rightarrow>
           state h' = HALF_OPEN \<and> half_open_success_count h' = 2 \<and>
           (case on_failure 63 h' of
              Inl e \<Rightarrow> False
            | Inr c \<Rightarrow> state c = OPEN \<and> half_open_success_count c = 0))"
proof -
  let ?cb = "(CircuitBreaker_init ''openlibrary'' CircuitBreakerConfig_default None 0
              :: (unit, int) CircuitBreaker)\<lparr>state := OPEN\<rparr>"
  have a: "state ?cb = OPEN" by simp
  have b: "real_of_int (recovery_timeout (config ?cb)) \<le> 60 - last_state_change ?cb"
    by (simp add: CircuitBreaker_init_def CircuitBreakerConfig_default_def)
  have c: "0 < window_size (stats ?cb)"
    by (simp add: CircuitBreaker_init_def CircuitBreakerStats_init_def)
  have S: "success_threshold (config ?cb) = 3"
    by (simp add: CircuitBreaker_init_def CircuitBreakerConfig_default_def)
  note th = half_open_recovery_cycle[OF a b c, unfolded Let_def S]
  from th have h1: "state (check_state_transition 60 ?cb) = HALF_OPEN"
    and h2: "half_open_success_count (check_state_transition 60 ?cb) = 0" by blast+
  from th have "[61, 62, 63 :: real] \<noteq> [] \<and> 3 \<le> int (length [61, 62, 63 :: real]) \<longrightarrow>
      (\<exists>c. on_successes [61, 62, 63] (check_state_transition 60 ?cb) = Inr c \<and>
           state c = CLOSED \<and> half_open_success_count c = 0)" by blast
  then have p1: "case on_successes [61, 62, 63] (check_state_transition 60 ?cb) of
         Inl e \<Rightarrow> False
       | Inr c \<Rightarrow> state c = CLOSED \<and> half_open_success_count c = 0"
    by auto
  from th have "int (length [61, 62 :: real]) < 3 \<longrightarrow>
        (\<exists>h'. on_successes [61, 62] (check_state_transition 60 ?cb) = Inr h' \<and>
              state h' = HALF_OPEN \<and> half_open_success_count h' = int (length [61, 62 :: real]) \<and>
              (\<exists>c. on_failure 63 h' = Inr c \<and> state c = OPEN \<and> half_open_success_count c = 0))"
    by blast
  then have p2: "case on_successes [61, 62] (check_state_transition 60 ?cb) of
         Inl e \<Rightarrow> False
       | Inr h' \<Rightarrow>
           state h' = HALF_OPEN \<and> half_open_success_count h' = 2 \<and>
           (case on_failure 63 h' of
              Inl e \<Rightarrow> False
            | Inr c \<Rightarrow> state c = OPEN \<and> half_open_success_count c = 0)"
    by auto
  show ?thesis unfolding Let_def using a b c h1 h2 p1 p2 by blast
qed

subsection \<open>Timeouts\<close>

lemma call_timeout_not_expected:
  fixes cb :: "('a, 'v) CircuitBreaker"
  assumes "state (check_state_transition now cb) \<noteq> OPEN"
    and "\<not> expected_exception (config cb) AsyncioTimeoutError"
    and "0 < window_size (stats cb)"
    and "func args = Hangs"
  shows "\<exists>cb'. call now now' func args cb = (Inl CircuitBreakerTimeoutException, cb', True) \<and>
           on_failure now' (check_state_transition now cb) = Inr cb'"
proof -
  let ?c = "check_state_transition now cb"
  have cfg: "config ?c = config cb" and st: "stats ?c = stats cb"
    by (simp_all add: check_state_transition_def)
  from record_failure_ok[OF assms(3), of now'] obtain s' where
    "record_failure now' (stats cb) = Inr s'" by blast
  then have "\<exists>cb'. on_failure now' ?c = Inr cb'"
    by (simp add: on_failure_def Let_def st)
  then obtain cb' where f: "on_failure now' ?c = Inr cb'" by blast
  show ?thesis using assms(1,2,4) f cfg
    by (simp add: call_def Let_def wait_for_def)
qed

lemma call_timeout_expected:
  fixes cb :: "('a, 'v) CircuitBreaker"
  assumes "state (check_state_transition now cb) \<noteq> OPEN"
    and "expected_exception (config cb) AsyncioTimeoutError"
    and "0 < window_size (stats cb)"
    and "func args = Hangs"
  shows "\<exists>cb'. call now now' func args cb = (Inl AsyncioTimeoutError, cb', True) \<and>
           on_failure now' (check_state_transition now cb) = Inr cb'"
proof -
  let ?c = "check_state_transition now cb"
  have cfg: "config ?c = config cb" and st: "stats ?c = stats cb"
    by (simp_all add: check_state_transition_def)
  from record_failure_ok[OF assms(3), of now'] obtain s' where
    "record_failure now' (stats cb) = Inr s'" by blast
  then have "\<exists>cb'. on_failure now' ?c = Inr cb'"
    by (simp add: on_failure_def Let_def st)
  then obtain cb' where f: "on_failure now' ?c = Inr cb'" by blast
  show ?thesis using assms(1,2,4) f cfg
    by (simp add: call_def Let_def wait_for_def)
qed

text \<open>
  Claim C5. A closed or half-open breaker whose wrapped operation exceeds the per-call
  timeout records a failure and raises the breaker's own timeout error. The two lemmas
  above show the failure is recorded in both cases, but the error raised is
  \<open>CircuitBreakerTimeoutException\<close> only when \<open>expected_exception\<close> does not cover
  \<open>asyncio.TimeoutError\<close>. Under the default configuration (\<open>expected_exception =
  Exception\<close>) the first \<open>except\<close> clause catches the timeout and re-raises it
  unchanged, as evaluated here.
\<close>

theorem timeout_under_default_config:
  "let cb = CircuitBreaker_init ''svc'' CircuitBreakerConfig_default None 0
              :: (unit, int) CircuitBreaker;
       r = call 1 31 (\<lambda>u. Hangs) () cb
   in state cb = CLOSED \<and>
      fst r = Inl AsyncioTimeoutError \<and>
      fst r \<noteq> Inl CircuitBreakerTimeoutException \<and>
      failure_count (stats (fst (snd r))) = 1 \<and>
      snd (snd r) = True"
  by (simp add: Let_def call_def wait_for_def check_state_transition_def on_failure_def
      record_failure_def add_request_def total_requests_def
      CircuitBreaker_init_def CircuitBreakerConfig_default_def CircuitBreakerStats_init_def)

section \<open>Properties of the cache\<close>

lemma fold_frame:
  assumes "\<And>x s. g (f x s) = g s"
  shows "g (fold f xs s) = g s"
  by (induction xs arbitrary: s) (simp_all add: assms)

lemma delete_frame:
  "max_size (snd (delete k cm)) = max_size cm"
  "default_ttl (snd (delete k cm)) = default_ttl cm"
  "strategy (snd (delete k cm)) = strategy cm"
  "enable_compression (snd (delete k cm)) = enable_compression cm"
  "hits (snd (delete k cm)) = hits cm"
  "misses (snd (delete k cm)) = misses cm"
  "evictions (snd (delete k cm)) = evictions cm"
  by (simp_all add: delete_def Let_def)

lemma evict_lru_frame:
  "max_size (evict_lru n cm) = max_size cm \<and>
   default_ttl (evict_lru n cm) = default_ttl cm \<and>
   strategy (evict_lru n cm) = strategy cm \<and>
   enable_compression (evict_lru n cm) = enable_compression cm \<and>
   frequency_counter (evict_lru n cm) = frequency_counter cm"
  by (induction n cm rule: evict_lru.induct) (simp_all add: Let_def split: list.splits)

lemma evict_lfu_key_frame:
  "max_size (evict_lfu_key k cm) = max_size cm"
  "default_ttl (evict_lfu_key k cm) = default_ttl cm"
  "strategy (evict_lfu_key k cm) = strategy cm"
  "enable_compression (evict_lfu_key k cm) = enable_compression cm"
  "access_order (evict_lfu_key k cm) = access_order cm"
  by (simp_all add: evict_lfu_key_def)

lemma evict_ttl_key_frame:
  "max_size (evict_ttl_key k cm) = max_size cm"
  "default_ttl (evict_ttl_key k cm) = default_ttl cm"
  "strategy (evict_ttl_key k cm) = strategy cm"
  "enable_compression (evict_ttl_key k cm) = enable_compression cm"
  by (simp_all add: evict_ttl_key_def Let_def delete_frame)

lemma evict_entries_frame:
  "max_size (evict_entries now n cm) = max_size cm"
  "default_ttl (evict_entries now n cm) = default_ttl cm"
  "strategy (evict_entries now n cm) = strategy cm"
  "enable_compression (evict_entries now n cm) = enable_compression cm"
  by (simp_all add: evict_entries_def Let_def evict_lru_frame
      fold_frame[of max_size] fold_frame[of default_ttl] fold_frame[of strategy]
      fold_frame[of enable_compression] evict_lfu_key_frame evict_ttl_key_frame)

lemma compress_if_needed_frame:
  "max_size (snd (compress_if_needed cd v cm)) = max_size cm"
  "default_ttl (snd (compress_if_needed cd v cm)) = default_ttl cm"
  "strategy (snd (compress_if_needed cd v cm)) = strategy cm"
  "enable_compression (snd (compress_if_needed cd v cm)) = enable_compression cm"
  "cache (snd (compress_if_needed cd v cm)) = cache cm"
  "access_order (snd (compress_if_needed cd v cm)) = access_order cm"
  "frequency_counter (snd (compress_if_needed cd v cm)) = frequency_counter cm"
  "evictions (snd (compress_if_needed cd v cm)) = evictions cm"
  by (simp_all add: compress_if_needed_def Let_def)

text \<open>The entry that \<open>set\<close> stores under the key.\<close>

lemma set_entry_stored:
  "map_of (cache (snd (set_entry cd now key v t force cm))) key =
     Some \<lparr>entry_value =
              fst (compress_if_needed cd v
                (if int (length (cache cm)) \<ge> max_size cm \<and> key \<notin> fst ` set (cache cm)
                 then evict_entries now 1 cm else cm)),
           created_at = now, accessed_at = now, access_count = 1,
           ttl = ttl_or_default t (default_ttl cm)\<rparr>"
  by (simp add: set_entry_def Let_def split_beta update_conv' compress_if_needed_frame
      evict_entries_frame)

lemma fst_compress_if_needed:
  "fst (compress_if_needed cd v cm) =
     (if enable_compression cm \<and> length (pickle_dumps cd v) > 1024
      then PDict [(''_compressed'', PBool True), (''_data'', PBytes (gzip_compress cd (pickle_dumps cd v)))]
      else v)"
  by (simp add: compress_if_needed_def Let_def)

lemma decompress_plain:
  "\<not> looks_compressed v \<Longrightarrow> decompress_if_needed cd v = Inr v"
  by (auto simp add: looks_compressed_def decompress_if_needed_def split: pyval.splits option.splits)

lemma delete_removes: "map_of (cache (snd (delete k cm))) k = None"
  by (simp add: delete_def Let_def map_of_eq_None_iff delete_notin_dom)

lemma get_hit:
  assumes "map_of (cache cm) key = Some entry" and "\<not> is_expired now entry"
  shows "fst (get cd now key cm) = decompress_if_needed cd (entry_value entry)"
    and "hits (snd (get cd now key cm)) = hits cm + 1"
    and "misses (snd (get cd now key cm)) = misses cm"
  using assms by (simp_all add: get_def Let_def)

lemma get_absent:
  assumes "map_of (cache cm) key = None"
  shows "get cd now key cm = (Inr PNone, cm\<lparr>misses := misses cm + 1\<rparr>)"
  using assms by (simp add: get_def)

lemma get_expired:
  assumes "map_of (cache cm) key = Some entry" and "is_expired now entry"
  shows "fst (get cd now key cm) = Inr PNone"
    and "hits (snd (get cd now key cm)) = hits cm"
    and "misses (snd (get cd now key cm)) = misses cm + 1"
    and "map_of (cache (snd (get cd now key cm))) key = None"
  using assms by (simp_all add: get_def Let_def delete_frame delete_removes)

text \<open>
  Claim C9. For every key and value, \<open>set\<close> with an explicit ttl of 0 stores the entry
  with the store-wide \<open>default_ttl\<close>: the stored ttl is "provided or default", zero is
  falsy, so the call does exactly what the call without a ttl does and an immediately
  expiring entry cannot be requested through ttl = 0.
\<close>

theorem set_zero_ttl_stores_default:
  "set_entry cd now key v (Some 0) force cm = set_entry cd now key v None force cm \<and>
   (case map_of (cache (snd (set_entry cd now key v (Some 0) force cm))) key of
      None \<Rightarrow> False
    | Some entry \<Rightarrow> ttl entry = default_ttl cm)"
  by (simp add: set_entry_stored ttl_or_default_def) (simp add: set_entry_def ttl_or_default_def)

text \<open>
  Claim C10. \<open>get\<close> returns None when the key is absent, when its entry has expired, and
  when the entry is present with the logical value None; the first two count a miss, the
  last counts a hit. Whenever \<open>get\<close> returns None for the key, the wrapper built by
  \<open>cached\<close> runs the wrapped function again and returns its outcome.
\<close>

theorem cached_none_is_a_miss:
  "(map_of (cache cm) key = None \<longrightarrow>
      fst (get cd now key cm) = Inr PNone \<and>
      hits (snd (get cd now key cm)) = hits cm \<and>
      misses (snd (get cd now key cm)) = misses cm + 1) \<and>
   (\<forall>entry. map_of (cache cm) key = Some entry \<and> is_expired now entry \<longrightarrow>
      fst (get cd now key cm) = Inr PNone \<and>
      hits (snd (get cd now key cm)) = hits cm \<and>
      misses (snd (get cd now key cm)) = misses cm + 1) \<and>
   (\<forall>entry. map_of (cache cm) key = Some entry \<and> \<not> is_expired now entry \<and>
      decompress_if_needed cd (entry_value entry) = Inr PNone \<longrightarrow>
      fst (get cd now key cm) = Inr PNone \<and>
      hits (snd (get cd now key cm)) = hits cm + 1 \<and>
      misses (snd (get cd now key cm)) = misses cm) \<and>
   (fst (get cd now (key_func args) cm) = Inr PNone \<longrightarrow>
      fst (cached_wrapper cd key_func t func now now' args cm) = func args \<and>
      snd (snd (cached_wrapper cd key_func t func now now' args cm)) = True)"
proof -
  have w: "fst (get cd now (key_func args) cm) = Inr PNone \<longrightarrow>
      fst (cached_wrapper cd key_func t func now now' args cm) = func args \<and>
      snd (snd (cached_wrapper cd key_func t func now now' args cm)) = True"
    by (cases "get cd now (key_func args) cm"; cases "func args")
       (auto simp add: cached_wrapper_def Let_def)
  show ?thesis
    using w get_hit[of cm key _ now cd] get_expired(1,2,3)[of cm key _ now cd]
    by (auto simp add: get_absent)
qed


theorem cached_none_is_a_miss_witness:
  "let cd = \<lparr>pickle_dumps = (\<lambda>v. []), pickle_loads = (\<lambda>b. Inl (OtherException ''UnpicklingError'')),
             gzip_compress = (\<lambda>b. b), gzip_decompress = (\<lambda>b. Inr b)\<rparr>;
       cm0 = SmartCacheManager_init 10 (Some 3600) LRU True;
       cm1 = snd (set_entry cd 0 ''k'' PNone None False cm0)
   in map_of (cache cm0) ''k'' = None \<and>
      fst (get cd 1 ''k'' cm0) = Inr PNone \<and> misses (snd (get cd 1 ''k'' cm0)) = 1 \<and>
      (case map_of (cache cm1) ''k'' of
         None \<Rightarrow> False
       | Some entry \<Rightarrow>
           \<not> is_expired 1 entry \<and> is_expired 3601 entry \<and>
           decompress_if_needed cd (entry_value entry) = Inr PNone) \<and>
      fst (get cd 1 ''k'' cm1) = Inr PNone \<and>
      hits (snd (get cd 1 ''k'' cm1)) = 1 \<and> misses (snd (get cd 1 ''k'' cm1)) = 0 \<and>
      fst (get cd 3601 ''k'' cm1) = Inr PNone \<and>
      hits (snd (get cd 3601 ''k'' cm1)) = 0 \<and> misses (snd (get cd 3601 ''k'' cm1)) = 1 \<and>
      fst (cached_wrapper cd (\<lambda>u. ''k'') None (\<lambda>u. Inr (PInt 5)) 1 2 () cm1) = Inr (PInt 5) \<and>
      snd (snd (cached_wrapper cd (\<lambda>u. ''k'') None (\<lambda>u. Inr (PInt 5)) 1 2 () cm1)) = True"
proof -
  let ?cd = "\<lparr>pickle_dumps = (\<lambda>v. []), pickle_loads = (\<lambda>b. Inl (OtherException ''UnpicklingError'')),
             gzip_compress = (\<lambda>b. b), gzip_decompress = (\<lambda>b. Inr b)\<rparr>"
  let ?cm0 = "SmartCacheManager_init 10 (Some 3600) LRU True"
  let ?cm1 = "snd (set_entry ?cd 0 ''k'' PNone None False ?cm0)"
  let ?e = "\<lparr>entry_value = PNone, created_at = 0, accessed_at = 0, access_count = 1,
             ttl = Some 3600\<rparr>"
  have m0: "map_of (cache ?cm0) ''k'' = None" by (simp add: SmartCacheManager_init_def)
  have m1: "map_of (cache ?cm1) ''k'' = Some ?e"
    by (simp add: set_entry_stored fst_compress_if_needed ttl_or_default_def
        SmartCacheManager_init_def evict_entries_frame)
  have h1: "hits ?cm1 = 0" and mi1: "misses ?cm1 = 0"
    by (simp_all add: set_entry_def Let_def split_beta compress_if_needed_def
        SmartCacheManager_init_def)
  have e1: "\<not> is_expired 1 ?e" and e2: "is_expired 3601 ?e" by (simp_all add: is_expired_def)
  have d: "decompress_if_needed ?cd (entry_value ?e) = Inr PNone"
    by (simp add: decompress_if_needed_def)
  note th = cached_none_is_a_miss
  from th[of ?cm0 "''k''" ?cd 1 "\<lambda>u. ''k''" "()" None "\<lambda>u. Inr (PInt 5)" 2] m0
  have a: "fst (get ?cd 1 ''k'' ?cm0) = Inr PNone" "misses (snd (get ?cd 1 ''k'' ?cm0)) = 1"
    by (simp_all add: SmartCacheManager_init_def)
  from th[of ?cm1 "''k''" ?cd 1 "\<lambda>u. ''k''" "()" None "\<lambda>u. Inr (PInt 5)" 2] m1 e1 d h1 mi1
  have b: "fst (get ?cd 1 ''k'' ?cm1) = Inr PNone" "hits (snd (get ?cd 1 ''k'' ?cm1)) = 1"
    "misses (snd (get ?cd 1 ''k'' ?cm1)) = 0" by simp_all
  from th[of ?cm1 "''k''" ?cd 3601 "\<lambda>u. ''k''" "()" None "\<lambda>u. Inr (PInt 5)" 2] m1 e2 h1 mi1
  have c: "fst (get ?cd 3601 ''k'' ?cm1) = Inr PNone" "hits (snd (get ?cd 3601 ''k'' ?cm1)) = 0"
    "misses (snd (get ?cd 3601 ''k'' ?cm1)) = 1" by simp_all
  from th[of ?cm1 "''k''" ?cd 1 "\<lambda>u. ''k''" "()" None "\<lambda>u. Inr (PInt 5)" 2] b(1)
  have w: "fst (cached_wrapper ?cd (\<lambda>u. ''k'') None (\<lambda>u. Inr (PInt 5)) 1 2 () ?cm1) = Inr (PInt 5)"
    "snd (snd (cached_wrapper ?cd (\<lambda>u. ''k'') None (\<lambda>u. Inr (PInt 5)) 1 2 () ?cm1)) = True"
    by simp_all
  show ?thesis unfolding Let_def using m0 a m1 e1 e2 d b c w by simp
qed

subsection \<open>Round trip\<close>

text \<open>
  Claim C3, amended. \<open>set(k, v)\<close> followed by \<open>get(k)\<close> returns \<open>v\<close> provided the entry
  has not expired in between and either the value is compressed (compression is enabled
  and its serialized size exceeds 1024 bytes) and the libraries' round trip on it is
  lossless, or the value is stored as it is and is not a dictionary with a truthy
  \<open>_compressed\<close> entry. What \<open>get\<close> does for a stored value that looks like the wrapper
  is left out of the statement.
\<close>

theorem set_get_round_trip:
  assumes "if enable_compression cm \<and> length (pickle_dumps cd v) > 1024
           then gzip_decompress cd (gzip_compress cd (pickle_dumps cd v)) = Inr (pickle_dumps cd v) \<and>
                pickle_loads cd (pickle_dumps cd v) = Inr v
           else \<not> looks_compressed v"
    and "not_expired_after (now' - now) (ttl_or_default t (default_ttl cm))"
  shows "fst (get cd now' k (snd (set_entry cd now k v t force cm))) = Inr v"
proof -
  let ?cm = "snd (set_entry cd now k v t force cm)"
  let ?pre = "if int (length (cache cm)) \<ge> max_size cm \<and> k \<notin> fst ` set (cache cm)
                 then evict_entries now 1 cm else cm"
  let ?e = "\<lparr>entry_value = fst (compress_if_needed cd v ?pre),
           created_at = now, accessed_at = now, access_count = 1,
           ttl = ttl_or_default t (default_ttl cm)\<rparr>"
  have st: "map_of (cache ?cm) k = Some ?e" by (rule set_entry_stored)
  have ne: "\<not> is_expired now' ?e"
    using assms(2) by (simp add: is_expired_def not_expired_after_def split: option.splits)
  have ec: "enable_compression ?pre = enable_compression cm"
    by (simp add: evict_entries_frame)
  have "decompress_if_needed cd (entry_value ?e) = Inr v"
  proof (cases "enable_compression cm \<and> length (pickle_dumps cd v) > 1024")
    case True
    with assms(1) have
      "gzip_decompress cd (gzip_compress cd (pickle_dumps cd v)) = Inr (pickle_dumps cd v)"
      "pickle_loads cd (pickle_dumps cd v) = Inr v" by simp_all
    then show ?thesis using True ec
      by (simp add: fst_compress_if_needed decompress_if_needed_def)
  next
    case False
    with assms(1) have "\<not> looks_compressed v" by simp
    then show ?thesis using False ec
      by (auto simp add: fst_compress_if_needed decompress_plain)
  qed
  with get_hit(1)[OF st ne, of cd] show ?thesis by simp
qed

theorem set_get_round_trip_witness:
  "let cd = \<lparr>pickle_dumps = (\<lambda>v. replicate 2000 0), pickle_loads = (\<lambda>b. Inr (PStr ''long text'')),
             gzip_compress = (\<lambda>b. take 10 b), gzip_decompress = (\<lambda>b. Inr (replicate 2000 0))\<rparr>;
       cm = SmartCacheManager_init 1000 (Some 3600) LRU True;
       cm' = SmartCacheManager_init 1000 None TTL False;
       v = PStr ''long text''
   in enable_compression cm \<and> length (pickle_dumps cd v) > 1024 \<and>
      gzip_decompress cd (gzip_compress cd (pickle_dumps cd v)) = Inr (pickle_dumps cd v) \<and>
      pickle_loads cd (pickle_dumps cd v) = Inr v \<and>
      not_expired_after (1 - 0) (ttl_or_default None (default_ttl cm)) \<and>
      fst (get cd 1 ''k'' (snd (set_entry cd 0 ''k'' v None False cm))) = Inr v \<and>
      \<not> enable_compression cm' \<and> \<not> looks_compressed (PInt 7) \<and>
      not_expired_after (9 - 0) (ttl_or_default (Some 0) (default_ttl cm')) \<and>
      fst (get cd 9 ''n'' (snd (set_entry cd 0 ''n'' (PInt 7) (Some 0) True cm'))) = Inr (PInt 7)"
proof -
  let ?cd = "\<lparr>pickle_dumps = (\<lambda>v. replicate 2000 0), pickle_loads = (\<lambda>b. Inr (PStr ''long text'')),
             gzip_compress = (\<lambda>b. take 10 b), gzip_decompress = (\<lambda>b. Inr (replicate 2000 0))\<rparr>"
  let ?cm = "SmartCacheManager_init 1000 (Some 3600) LRU True"
  let ?cm' = "SmartCacheManager_init 1000 None TTL False"
  let ?v = "PStr ''long text''"
  have c: "enable_compression ?cm \<and> length (pickle_dumps ?cd ?v) > 1024"
    by (simp add: SmartCacheManager_init_def)
  have a: "gzip_decompress ?cd (gzip_compress ?cd (pickle_dumps ?cd ?v)) = Inr (pickle_dumps ?cd ?v) \<and>
      pickle_loads ?cd (pickle_dumps ?cd ?v) = Inr ?v" by simp
  have d: "not_expired_after (1 - 0) (ttl_or_default None (default_ttl ?cm))"
    by (simp add: not_expired_after_def ttl_or_default_def SmartCacheManager_init_def)
  have r1: "fst (get ?cd 1 ''k'' (snd (set_entry ?cd 0 ''k'' ?v None False ?cm))) = Inr ?v"
    using set_get_round_trip[of ?cm ?cd ?v 1 0 None "''k''" False] a c d by simp
  have c': "\<not> enable_compression ?cm'" by (simp add: SmartCacheManager_init_def)
  have n: "\<not> looks_compressed (PInt 7)" by (simp add: looks_compressed_def)
  have d': "not_expired_after (9 - 0) (ttl_or_default (Some 0) (default_ttl ?cm'))"
    by (simp add: not_expired_after_def ttl_or_default_def SmartCacheManager_init_def)
  have r2: "fst (get ?cd 9 ''n'' (snd (set_entry ?cd 0 ''n'' (PInt 7) (Some 0) True ?cm'))) = Inr (PInt 7)"
    using set_get_round_trip[of ?cm' ?cd "PInt 7" 9 0 "Some 0" "''n''" True] c' n d' by simp
  show ?thesis unfolding Let_def using a c d r1 c' n d' r2 by blast
qed

text \<open>
  The claim as stated fails: the small dictionary \<open>{"_compressed": True}\<close> is stored as
  it is, with compression disabled or enabled, and \<open>get\<close> then raises KeyError when it
  looks for \<open>_data\<close>; and with a negative default ttl the entry has expired at once, so
  \<open>get\<close> returns None.
\<close>

theorem set_get_round_trip_counterexample:
  "let cd = \<lparr>pickle_dumps = (\<lambda>v. []), pickle_loads = (\<lambda>b. Inl (OtherException ''UnpicklingError'')),
             gzip_compress = (\<lambda>b. b), gzip_decompress = (\<lambda>b. Inr b)\<rparr>;
       v = PDict [(''_compressed'', PBool True)]
   in fst (get cd 0 ''k'' (snd (set_entry cd 0 ''k'' v None False
             (SmartCacheManager_init 1000 (Some 3600) LRU False)))) = Inl KeyError \<and>
      fst (get cd 0 ''k'' (snd (set_entry cd 0 ''k'' v None False
             (SmartCacheManager_init 1000 (Some 3600) LRU True)))) = Inl KeyError \<and>
      fst (get cd 0 ''k'' (snd (set_entry cd 0 ''k'' (PInt 7) None False
             (SmartCacheManager_init 1000 (Some (- 1)) LRU True)))) = Inr PNone"
  by (simp add: Let_def get_def set_entry_def compress_if_needed_def decompress_if_needed_def
      SmartCacheManager_init_def ttl_or_default_def is_expired_def delete_def)

subsection \<open>The state after each operation\<close>

lemma make_room_frame:
  "max_size (make_room now key cm) = max_size cm"
  "default_ttl (make_room now key cm) = default_ttl cm"
  "strategy (make_room now key cm) = strategy cm"
  "enable_compression (make_room now key cm) = enable_compression cm"
  by (simp_all add: make_room_def evict_entries_frame)

lemma set_entry_fields:
  "cache (snd (set_entry cd now key v t force cm)) =
     AList.update key (new_entry cd now key v t cm) (cache (make_room now key cm))"
  "access_order (snd (set_entry cd now key v t force cm)) =
     (if strategy cm = LRU
      then remove1 key (access_order (make_room now key cm)) @ [key]
      else access_order (make_room now key cm))"
  "frequency_counter (snd (set_entry cd now key v t force cm)) =
     (if strategy cm = LFU \<and> key \<notin> fst ` set (cache (make_room now key cm))
      then AList.update key 1 (frequency_counter (make_room now key cm))
      else frequency_counter (make_room now key cm))"
  "max_size (snd (set_entry cd now key v t force cm)) = max_size cm"
  "default_ttl (snd (set_entry cd now key v t force cm)) = default_ttl cm"
  "strategy (snd (set_entry cd now key v t force cm)) = strategy cm"
  "enable_compression (snd (set_entry cd now key v t force cm)) = enable_compression cm"
  "evictions (snd (set_entry cd now key v t force cm)) = evictions (make_room now key cm)"
  by (auto simp add: set_entry_def Let_def split_beta compress_if_needed_frame
        evict_entries_frame new_entry_def make_room_def remove1_idem)

lemma get_fields_hit:
  assumes "map_of (cache cm) key = Some entry" and "\<not> is_expired now entry"
  shows "cache (snd (get cd now key cm)) =
           AList.update key (entry\<lparr>accessed_at := now, access_count := access_count entry + 1\<rparr>)
             (cache cm)"
    and "access_order (snd (get cd now key cm)) =
           (if strategy cm = LRU then remove1 key (access_order cm) @ [key] else access_order cm)"
    and "frequency_counter (snd (get cd now key cm)) =
           (if strategy cm = LFU
            then AList.update key
                   ((case map_of (frequency_counter cm) key of None \<Rightarrow> 0 | Some n \<Rightarrow> n) + 1)
                   (frequency_counter cm)
            else frequency_counter cm)"
    and "max_size (snd (get cd now key cm)) = max_size cm"
    and "strategy (snd (get cd now key cm)) = strategy cm"
    and "evictions (snd (get cd now key cm)) = evictions cm"
  using assms by (simp_all add: get_def Let_def remove1_idem)

lemma get_state_absent:
  "map_of (cache cm) key = None \<Longrightarrow> snd (get cd now key cm) = cm\<lparr>misses := misses cm + 1\<rparr>"
  by (simp add: get_def)

lemma get_state_expired:
  "map_of (cache cm) key = Some entry \<Longrightarrow> is_expired now entry \<Longrightarrow>
     snd (get cd now key cm) = (snd (delete key cm))\<lparr>misses := misses (snd (delete key cm)) + 1\<rparr>"
  by (simp add: get_def Let_def)

lemma delete_fields:
  "cache (snd (delete key cm)) = AList.delete key (cache cm)"
  "access_order (snd (delete key cm)) =
     (if key \<in> fst ` set (cache cm) then remove1 key (access_order cm) else access_order cm)"
  "frequency_counter (snd (delete key cm)) =
     (if key \<in> fst ` set (cache cm) then AList.delete key (frequency_counter cm)
      else frequency_counter cm)"
  by (simp_all add: delete_def Let_def remove1_idem)




subsection \<open>Capacity\<close>

lemma length_delete_distinct:
  "distinct (map fst al) \<Longrightarrow> k \<in> fst ` set al \<Longrightarrow> Suc (length (AList.delete k al)) = length al"
proof (induction al)
  case Nil
  then show ?case by simp
next
  case (Cons p al)
  show ?case
  proof (cases "fst p = k")
    case True
    then have "k \<notin> fst ` set al" using Cons.prems(1) by auto
    then show ?thesis using True by simp
  next
    case False
    then have "k \<in> fst ` set al" using Cons.prems(2) by auto
    then show ?thesis using False Cons.IH Cons.prems(1) by simp
  qed
qed

lemma keys_delete: "fst ` set (AList.delete k al) = fst ` set al - {k}"
proof -
  have "set (map fst (AList.delete k al)) = set (map fst al) - {k}"
    by (simp only: delete_keys set_removeAll)
  then show ?thesis by simp
qed

lemma length_update_if:
  "length (AList.update k v al) = (if k \<in> fst ` set al then length al else Suc (length al))"
  by (induction al) auto

lemma cache_inv_misses [simp]: "cache_inv (cm\<lparr>misses := m\<rparr>) = cache_inv cm"
  by (simp add: cache_inv_def)

lemma delete_inv: "cache_inv cm \<Longrightarrow> cache_inv (snd (delete k cm))"
proof (cases "k \<in> fst ` set (cache cm)")
  case False
  assume "cache_inv cm"
  then show ?thesis using False by (simp add: delete_def)
next
  case True
  assume inv: "cache_inv cm"
  have len: "length (AList.delete k (cache cm)) \<le> length (cache cm)"
    by (rule length_delete_le)
  show ?thesis
    using inv True len
    by (auto simp add: cache_inv_def delete_fields delete_frame distinct_delete keys_delete)
qed

lemma get_inv: "cache_inv cm \<Longrightarrow> cache_inv (snd (get cd now key cm))"
proof -
  assume inv: "cache_inv cm"
  show ?thesis
  proof (cases "map_of (cache cm) key")
    case None
    then show ?thesis using inv by (simp add: get_state_absent)
  next
    case (Some entry)
    then have mem: "key \<in> fst ` set (cache cm)"
      by (metis map_of_eq_None_iff option.distinct(1))
    show ?thesis
    proof (cases "is_expired now entry")
      case True
      then show ?thesis using inv Some by (simp add: get_state_expired delete_inv)
    next
      case False
      have keys: "map fst (AList.update key
              (entry\<lparr>accessed_at := now, access_count := access_count entry + 1\<rparr>) (cache cm)) =
            map fst (cache cm)"
        using mem by (simp add: update_keys)
      have len: "length (AList.update key
              (entry\<lparr>accessed_at := now, access_count := access_count entry + 1\<rparr>) (cache cm)) =
            length (cache cm)"
        using mem by (simp add: length_update_if)
      have ks: "fst ` set (AList.update key
              (entry\<lparr>accessed_at := now, access_count := access_count entry + 1\<rparr>) (cache cm)) =
            fst ` set (cache cm)"
        using mem by (auto simp add: dom_update)
      show ?thesis
        using inv mem keys len ks
        by (auto simp add: cache_inv_def get_fields_hit[OF Some False] dom_update)
    qed
  qed
qed


lemma cache_inv_evictions [simp]: "cache_inv (cm\<lparr>evictions := m\<rparr>) = cache_inv cm"
  by (simp add: cache_inv_def)

lemma evict_ttl_key_present:
  assumes "cache_inv cm" and "k \<in> fst ` set (cache cm)"
  shows "cache_inv (evict_ttl_key k cm)"
    and "Suc (length (cache (evict_ttl_key k cm))) = length (cache cm)"
    and "evictions (evict_ttl_key k cm) = evictions cm + 1"
    and "fst ` set (cache (evict_ttl_key k cm)) \<subseteq> fst ` set (cache cm)"
proof -
  have d: "distinct (map fst (cache cm))" using assms(1) by (simp add: cache_inv_def)
  show "cache_inv (evict_ttl_key k cm)"
    using delete_inv[OF assms(1), of k] by (simp add: evict_ttl_key_def Let_def)
  show "Suc (length (cache (evict_ttl_key k cm))) = length (cache cm)"
    using length_delete_distinct[OF d assms(2)]
    by (simp add: evict_ttl_key_def Let_def delete_fields)
  show "evictions (evict_ttl_key k cm) = evictions cm + 1"
    by (simp add: evict_ttl_key_def Let_def delete_frame)
  show "fst ` set (cache (evict_ttl_key k cm)) \<subseteq> fst ` set (cache cm)"
    by (simp add: evict_ttl_key_def Let_def delete_fields dom_delete_subset)
qed

lemma slice_to_one: "slice_to 1 (x # xs) = [x]"
  by (simp add: slice_to_def)

lemma evict_one_lru:
  assumes "cache_inv cm" and "cache cm \<noteq> []" and "strategy cm = LRU"
  shows "\<exists>k \<in> fst ` set (cache cm).
           evict_entries now 1 cm =
             cm\<lparr>access_order := remove1 k (access_order cm),
                cache := AList.delete k (cache cm), evictions := evictions cm + 1\<rparr>"
proof -
  have eq: "set (access_order cm) = fst ` set (cache cm)"
    using assms(1,3) by (simp add: cache_inv_def)
  then have "access_order cm \<noteq> []" using assms(2) by auto
  then obtain k rest where ao: "access_order cm = k # rest" by (cases "access_order cm") auto
  have k: "k \<in> fst ` set (cache cm)" using eq ao by auto
  have n: "nat (min 1 (int (length (access_order cm)))) = Suc 0" by (simp add: ao min_def)
  have "evict_entries now 1 cm =
          cm\<lparr>access_order := rest, cache := AList.delete k (cache cm),
             evictions := evictions cm + 1\<rparr>"
    using k by (simp add: evict_entries_def assms(3) n ao Let_def)
  then show ?thesis using k ao by auto
qed

lemma evict_one_lfu:
  assumes "cache_inv cm" and "cache cm \<noteq> []" and "strategy cm = LFU"
  shows "\<exists>k \<in> fst ` set (cache cm).
           evict_entries now 1 cm =
             cm\<lparr>cache := AList.delete k (cache cm),
                frequency_counter := AList.delete k (frequency_counter cm),
                evictions := evictions cm + 1\<rparr>"
proof -
  have eq: "fst ` set (frequency_counter cm) = fst ` set (cache cm)"
    using assms(1,3) by (simp add: cache_inv_def)
  then have ne: "frequency_counter cm \<noteq> []" using assms(2) by auto
  then have "sort_key snd (frequency_counter cm) \<noteq> []"
    by (metis length_0_conv length_sort)
  then obtain x xs where so: "sort_key snd (frequency_counter cm) = x # xs"
    by (cases "sort_key snd (frequency_counter cm)") auto
  have "x \<in> set (sort_key snd (frequency_counter cm))" by (simp add: so)
  then have "x \<in> set (frequency_counter cm)" by simp
  then have k: "fst x \<in> fst ` set (cache cm)" using eq by auto
  have "evict_entries now 1 cm = evict_lfu_key (fst x) cm"
    using ne by (simp add: evict_entries_def assms(3) Let_def so slice_to_one)
  then have "evict_entries now 1 cm =
             cm\<lparr>cache := AList.delete (fst x) (cache cm),
                frequency_counter := AList.delete (fst x) (frequency_counter cm),
                evictions := evictions cm + 1\<rparr>"
    using k by (simp add: evict_lfu_key_def)
  with k show ?thesis by blast
qed

lemma evict_one_ttl:
  assumes "cache_inv cm" and "cache cm \<noteq> []" and "strategy cm = TTL"
  shows "\<exists>k \<in> fst ` set (cache cm). evict_entries now 1 cm = evict_ttl_key k cm"
proof (cases "map fst (filter (\<lambda>(key, entry). is_expired now entry) (cache cm))")
  case Nil
  obtain y ys where so: "sort_key (\<lambda>x. created_at (snd x)) (cache cm) = y # ys"
    using assms(2)
    by (cases "sort_key (\<lambda>x. created_at (snd x)) (cache cm)")
       (auto dest: arg_cong[where f = length])
  have "y \<in> set (sort_key (\<lambda>x. created_at (snd x)) (cache cm))" by (simp add: so)
  then have k: "fst y \<in> fst ` set (cache cm)" by simp
  have "evict_entries now 1 cm = evict_ttl_key (fst y) cm"
    by (simp add: evict_entries_def assms(3) Let_def Nil so slice_to_one slice_to_def)
  then show ?thesis using k by blast
next
  case (Cons x xs)
  have "x \<in> set (map fst (filter (\<lambda>(key, entry). is_expired now entry) (cache cm)))"
    by (simp add: Cons)
  then have k: "x \<in> fst ` set (cache cm)" by auto
  have "evict_entries now 1 cm = evict_ttl_key x cm"
    by (simp add: evict_entries_def assms(3) Let_def Cons slice_to_one)
  then show ?thesis using k by blast
qed

lemma evict_one:
  assumes "cache_inv cm" and "cache cm \<noteq> []"
  shows "cache_inv (evict_entries now 1 cm)"
    and "Suc (length (cache (evict_entries now 1 cm))) = length (cache cm)"
    and "evictions (evict_entries now 1 cm) = evictions cm + 1"
    and "fst ` set (cache (evict_entries now 1 cm)) \<subseteq> fst ` set (cache cm)"
proof -
  have d: "distinct (map fst (cache cm))" and st: "strategy cm \<in> {LRU, LFU, TTL}"
    using assms(1) by (simp_all add: cache_inv_def)
  have all: "cache_inv (evict_entries now 1 cm) \<and>
      Suc (length (cache (evict_entries now 1 cm))) = length (cache cm) \<and>
      evictions (evict_entries now 1 cm) = evictions cm + 1 \<and>
      fst ` set (cache (evict_entries now 1 cm)) \<subseteq> fst ` set (cache cm)"
  proof (cases "strategy cm")
    case LRU
    from evict_one_lru[OF assms LRU, of now] obtain k where k: "k \<in> fst ` set (cache cm)"
      and e: "evict_entries now 1 cm =
             cm\<lparr>access_order := remove1 k (access_order cm),
                cache := AList.delete k (cache cm), evictions := evictions cm + 1\<rparr>" by blast
    have len: "Suc (length (AList.delete k (cache cm))) = length (cache cm)"
      by (rule length_delete_distinct[OF d k])
    have inv: "cache_inv (evict_entries now 1 cm)"
      using assms(1) LRU len unfolding e
      by (auto simp add: cache_inv_def distinct_delete keys_delete)
    show ?thesis using inv len unfolding e by (simp add: dom_delete_subset)
  next
    case LFU
    from evict_one_lfu[OF assms LFU, of now] obtain k where k: "k \<in> fst ` set (cache cm)"
      and e: "evict_entries now 1 cm =
             cm\<lparr>cache := AList.delete k (cache cm),
                frequency_counter := AList.delete k (frequency_counter cm),
                evictions := evictions cm + 1\<rparr>" by blast
    have len: "Suc (length (AList.delete k (cache cm))) = length (cache cm)"
      by (rule length_delete_distinct[OF d k])
    have inv: "cache_inv (evict_entries now 1 cm)"
      using assms(1) LFU len unfolding e
      by (auto simp add: cache_inv_def distinct_delete keys_delete)
    show ?thesis using inv len unfolding e by (simp add: dom_delete_subset)
  next
    case TTL
    from evict_one_ttl[OF assms TTL, of now] obtain k where k: "k \<in> fst ` set (cache cm)"
      and e: "evict_entries now 1 cm = evict_ttl_key k cm" by blast
    show ?thesis unfolding e using evict_ttl_key_present[OF assms(1) k] by simp
  next
    case WRITE_THROUGH
    then show ?thesis using st by simp
  next
    case WRITE_BEHIND
    then show ?thesis using st by simp
  qed
  from all show "cache_inv (evict_entries now 1 cm)"
    and "Suc (length (cache (evict_entries now 1 cm))) = length (cache cm)"
    and "evictions (evict_entries now 1 cm) = evictions cm + 1"
    and "fst ` set (cache (evict_entries now 1 cm)) \<subseteq> fst ` set (cache cm)" by simp_all
qed


lemma make_room_inv:
  assumes "cache_inv cm"
  shows "cache_inv (make_room now key cm)"
    and "key \<notin> fst ` set (cache (make_room now key cm)) \<Longrightarrow>
           int (length (cache (make_room now key cm))) < max_size cm"
proof -
  have m1: "1 \<le> max_size cm" and le: "int (length (cache cm)) \<le> max_size cm"
    using assms by (simp_all add: cache_inv_def)
  show "cache_inv (make_room now key cm)"
  proof (cases "int (length (cache cm)) \<ge> max_size cm \<and> key \<notin> fst ` set (cache cm)")
    case True
    then have "cache cm \<noteq> []" using m1 by auto
    from evict_one(1)[OF assms this, of now] True show ?thesis by (simp add: make_room_def)
  next
    case False
    then have "make_room now key cm = cm" by (auto simp add: make_room_def)
    then show ?thesis using assms by simp
  qed
  show "int (length (cache (make_room now key cm))) < max_size cm"
    if nk: "key \<notin> fst ` set (cache (make_room now key cm))"
  proof (cases "int (length (cache cm)) \<ge> max_size cm \<and> key \<notin> fst ` set (cache cm)")
    case True
    then have "cache cm \<noteq> []" using m1 by auto
    from evict_one(2)[OF assms this, of now] True le show ?thesis
      by (simp add: make_room_def)
  next
    case False
    then have mr: "make_room now key cm = cm" by (auto simp add: make_room_def)
    with nk have "key \<notin> fst ` set (cache cm)" by simp
    with False have "int (length (cache cm)) < max_size cm" by simp
    then show ?thesis by (simp add: mr)
  qed
qed

lemma set_entry_inv:
  assumes "cache_inv cm"
  shows "cache_inv (snd (set_entry cd now key v t force cm))"
proof -
  let ?mr = "make_room now key cm"
  let ?e = "new_entry cd now key v t cm"
  have inv: "cache_inv ?mr" by (rule make_room_inv(1)[OF assms])
  have st: "strategy ?mr = strategy cm" and ms: "max_size ?mr = max_size cm"
    by (simp_all add: make_room_frame)
  have len: "int (length (AList.update key ?e (cache ?mr))) \<le> max_size cm"
  proof (cases "key \<in> fst ` set (cache ?mr)")
    case True
    then show ?thesis using inv ms by (simp add: length_update_if cache_inv_def)
  next
    case False
    from make_room_inv(2)[OF assms False] False show ?thesis
      by (simp add: length_update_if)
  qed
  have dist: "distinct (map fst (AList.update key ?e (cache ?mr)))"
    using inv by (simp add: distinct_update cache_inv_def)
  have lru: "strategy cm = LRU \<Longrightarrow>
      distinct (remove1 key (access_order ?mr) @ [key]) \<and>
      set (remove1 key (access_order ?mr) @ [key]) = fst ` set (AList.update key ?e (cache ?mr))"
    using inv st by (auto simp add: cache_inv_def dom_update)
  have lfu: "strategy cm = LFU \<Longrightarrow>
      fst ` set (if key \<notin> fst ` set (cache ?mr)
                 then AList.update key 1 (frequency_counter ?mr)
                 else frequency_counter ?mr) = fst ` set (AList.update key ?e (cache ?mr))"
    using inv st by (auto simp add: cache_inv_def dom_update)
  have basic: "strategy cm \<in> {LRU, LFU, TTL}" "1 \<le> max_size cm"
    using assms by (simp_all add: cache_inv_def)
  show ?thesis
    unfolding cache_inv_def set_entry_fields
    using basic len dist lru lfu by auto
qed

lemma cache_apply_inv: "cache_inv cm \<Longrightarrow> cache_inv (cache_apply cd op cm)"
  by (cases op) (simp_all add: get_inv set_entry_inv delete_inv)

lemma cache_run_inv: "cache_inv cm \<Longrightarrow> cache_inv (cache_run cd ops cm)"
  by (induction ops arbitrary: cm) (simp_all add: cache_apply_inv)

lemma get_frame:
  "max_size (snd (get cd now key cm)) = max_size cm"
  "strategy (snd (get cd now key cm)) = strategy cm"
proof -
  show "max_size (snd (get cd now key cm)) = max_size cm"
    by (cases "map_of (cache cm) key")
       (simp_all add: get_def Let_def delete_frame)
  show "strategy (snd (get cd now key cm)) = strategy cm"
    by (cases "map_of (cache cm) key")
       (simp_all add: get_def Let_def delete_frame)
qed

lemma cache_run_frame:
  "max_size (cache_run cd ops cm) = max_size cm \<and> strategy (cache_run cd ops cm) = strategy cm"
proof (induction ops arbitrary: cm)
  case Nil
  show ?case by simp
next
  case (Cons op ops)
  have "max_size (cache_apply cd op cm) = max_size cm \<and>
        strategy (cache_apply cd op cm) = strategy cm"
    by (cases op) (simp_all add: get_frame set_entry_fields delete_frame)
  with Cons.IH[of "cache_apply cd op cm"] show ?case by simp
qed

lemma init_inv:
  "strat \<in> {LRU, LFU, TTL} \<Longrightarrow> 1 \<le> C \<Longrightarrow> cache_inv (SmartCacheManager_init C dt strat ec)"
  by (auto simp add: cache_inv_def SmartCacheManager_init_def)

text \<open>
  Claim C2, amended. For every cache with strategy LRU, LFU or TTL and capacity
  \<open>C \<ge> 1\<close>, after every finite sequence of set, get and delete operations on the empty
  cache (any keys, values, ttls and force flags) the store holds at most \<open>C\<close> entries,
  one per key. In such a state, setting a new key when \<open>C\<close> entries are stored first
  evicts exactly one entry and then appends the new key, and setting a key that is
  already stored evicts nothing and keeps the stored keys.
\<close>

theorem cache_capacity_invariant:
  assumes "strat \<in> {LRU, LFU, TTL}" and "1 \<le> C"
  shows "let cm = cache_run cd ops (SmartCacheManager_init C dt strat ec) in
     int (length (cache cm)) \<le> C \<and> distinct (map fst (cache cm)) \<and>
     (\<forall>now key v t force.
        key \<notin> fst ` set (cache cm) \<and> int (length (cache cm)) = C \<longrightarrow>
          int (length (cache (evict_entries now 1 cm))) = C - 1 \<and>
          map fst (cache (snd (set_entry cd now key v t force cm))) =
            map fst (cache (evict_entries now 1 cm)) @ [key] \<and>
          evictions (snd (set_entry cd now key v t force cm)) = evictions cm + 1) \<and>
     (\<forall>now key v t force.
        key \<in> fst ` set (cache cm) \<longrightarrow>
          map fst (cache (snd (set_entry cd now key v t force cm))) = map fst (cache cm) \<and>
          evictions (snd (set_entry cd now key v t force cm)) = evictions cm)"
proof -
  let ?cm = "cache_run cd ops (SmartCacheManager_init C dt strat ec)"
  have inv: "cache_inv ?cm" by (rule cache_run_inv[OF init_inv[OF assms]])
  have ms: "max_size ?cm = C"
    using cache_run_frame[of cd ops "SmartCacheManager_init C dt strat ec"]
    by (simp add: SmartCacheManager_init_def)
  have a: "int (length (cache ?cm)) \<le> C" and b: "distinct (map fst (cache ?cm))"
    using inv ms by (simp_all add: cache_inv_def)
  have c: "int (length (cache (evict_entries now 1 ?cm))) = C - 1 \<and>
          map fst (cache (snd (set_entry cd now key v t force ?cm))) =
            map fst (cache (evict_entries now 1 ?cm)) @ [key] \<and>
          evictions (snd (set_entry cd now key v t force ?cm)) = evictions ?cm + 1"
    if h: "key \<notin> fst ` set (cache ?cm) \<and> int (length (cache ?cm)) = C"
    for now key v t force
  proof -
    have ne: "cache ?cm \<noteq> []" using h assms(2) by auto
    have mr: "make_room now key ?cm = evict_entries now 1 ?cm"
      using h ms by (simp add: make_room_def)
    have nk: "key \<notin> fst ` set (cache (evict_entries now 1 ?cm))"
      using evict_one(4)[OF inv ne, of now] h by blast
    have nk': "key \<notin> set (map fst (cache (evict_entries now 1 ?cm)))"
      using nk by simp
    have l: "int (length (cache (evict_entries now 1 ?cm))) = C - 1"
      using evict_one(2)[OF inv ne, of now] h by linarith
    have k: "map fst (cache (snd (set_entry cd now key v t force ?cm))) =
            map fst (cache (evict_entries now 1 ?cm)) @ [key]"
      using nk' by (simp only: set_entry_fields mr update_keys if_False)
    have e: "evictions (snd (set_entry cd now key v t force ?cm)) = evictions ?cm + 1"
      using evict_one(3)[OF inv ne, of now] by (simp add: set_entry_fields mr)
    from l k e show ?thesis by blast
  qed
  have d: "map fst (cache (snd (set_entry cd now key v t force ?cm))) = map fst (cache ?cm) \<and>
          evictions (snd (set_entry cd now key v t force ?cm)) = evictions ?cm"
    if h: "key \<in> fst ` set (cache ?cm)" for now key v t force
  proof -
    have mr: "make_room now key ?cm = ?cm" using h by (simp add: make_room_def)
    have "key \<in> set (map fst (cache ?cm))" using h by simp
    then have "map fst (cache (snd (set_entry cd now key v t force ?cm))) = map fst (cache ?cm)"
      by (simp only: set_entry_fields mr update_keys if_True)
    then show ?thesis by (simp add: set_entry_fields mr)
  qed
  show ?thesis unfolding Let_def using a b c d by blast
qed

theorem cache_capacity_invariant_witness:
  "LRU \<in> {LRU, LFU, TTL} \<and> (1::int) \<le> 1 \<and>
   (let cd = \<lparr>pickle_dumps = (\<lambda>v. []), pickle_loads = (\<lambda>b. Inl (OtherException ''UnpicklingError'')),
              gzip_compress = (\<lambda>b. b), gzip_decompress = (\<lambda>b. Inr b)\<rparr>;
        cm = cache_run cd [Set 0 ''a'' (PInt 1) None False]
               (SmartCacheManager_init 1 (Some 3600) LRU True)
    in map fst (cache cm) = [''a''] \<and> int (length (cache cm)) \<le> 1 \<and>
       ''b'' \<notin> fst ` set (cache cm) \<and> int (length (cache cm)) = 1 \<and>
       (int (length (cache (evict_entries 1 1 cm))) = 1 - 1 \<and>
        map fst (cache (snd (set_entry cd 1 ''b'' (PInt 2) None False cm))) =
          map fst (cache (evict_entries 1 1 cm)) @ [''b''] \<and>
        evictions (snd (set_entry cd 1 ''b'' (PInt 2) None False cm)) = evictions cm + 1) \<and>
       ''a'' \<in> fst ` set (cache cm) \<and>
       map fst (cache (snd (set_entry cd 2 ''a'' (PInt 9) None True cm))) = map fst (cache cm) \<and>
       evictions (snd (set_entry cd 2 ''a'' (PInt 9) None True cm)) = evictions cm)"
proof -
  define cd where "cd = \<lparr>pickle_dumps = (\<lambda>v. []),
      pickle_loads = (\<lambda>b. Inl (OtherException ''UnpicklingError'')),
      gzip_compress = (\<lambda>b. b), gzip_decompress = (\<lambda>b. Inr b)\<rparr>"
  define cm where "cm = cache_run cd [Set 0 ''a'' (PInt 1) None False]
               (SmartCacheManager_init 1 (Some 3600) LRU True)"
  have s: "LRU \<in> {LRU, LFU, TTL}" and c: "(1::int) \<le> 1" by simp_all
  note th = cache_capacity_invariant[OF s c, of cd "[Set 0 ''a'' (PInt 1) None False]"
      "Some 3600" True, unfolded Let_def, folded cm_def]
  note t1 = th[THEN conjunct1]
  note t3 = th[THEN conjunct2, THEN conjunct2, THEN conjunct1, rule_format]
  note t4 = th[THEN conjunct2, THEN conjunct2, THEN conjunct2, rule_format]
  have keys: "map fst (cache cm) = [''a'']"
    unfolding cm_def by (simp add: set_entry_fields make_room_def SmartCacheManager_init_def)
  have ks: "fst ` set (cache cm) = {''a''}"
    using keys by (metis list.set_map list.simps(15) empty_set)
  have "length (map fst (cache cm)) = 1" by (simp only: keys) simp
  then have len: "int (length (cache cm)) = 1" by simp
  have nb: "''b'' \<notin> fst ` set (cache cm)" and ia: "''a'' \<in> fst ` set (cache cm)"
    by (simp_all add: ks)
  have p1: "int (length (cache (evict_entries 1 1 cm))) = 1 - 1 \<and>
        map fst (cache (snd (set_entry cd 1 ''b'' (PInt 2) None False cm))) =
          map fst (cache (evict_entries 1 1 cm)) @ [''b''] \<and>
        evictions (snd (set_entry cd 1 ''b'' (PInt 2) None False cm)) = evictions cm + 1"
    by (rule t3) (rule conjI[OF nb len])
  have p2: "map fst (cache (snd (set_entry cd 2 ''a'' (PInt 9) None True cm))) = map fst (cache cm) \<and>
       evictions (snd (set_entry cd 2 ''a'' (PInt 9) None True cm)) = evictions cm"
    by (rule t4) (rule ia)
  have main: "LRU \<in> {LRU, LFU, TTL} \<and> (1::int) \<le> 1 \<and>
      (map fst (cache cm) = [''a''] \<and> int (length (cache cm)) \<le> 1 \<and>
       ''b'' \<notin> fst ` set (cache cm) \<and> int (length (cache cm)) = 1 \<and>
       (int (length (cache (evict_entries 1 1 cm))) = 1 - 1 \<and>
        map fst (cache (snd (set_entry cd 1 ''b'' (PInt 2) None False cm))) =
          map fst (cache (evict_entries 1 1 cm)) @ [''b''] \<and>
        evictions (snd (set_entry cd 1 ''b'' (PInt 2) None False cm)) = evictions cm + 1) \<and>
       ''a'' \<in> fst ` set (cache cm) \<and>
       map fst (cache (snd (set_entry cd 2 ''a'' (PInt 9) None True cm))) = map fst (cache cm) \<and>
       evictions (snd (set_entry cd 2 ''a'' (PInt 9) None True cm)) = evictions cm)"
    by (intro conjI s c keys t1 nb len p1 ia p2[THEN conjunct1] p2[THEN conjunct2])
  show ?thesis unfolding Let_def using main[unfolded cm_def cd_def] .
qed

text \<open>
  The claim as stated fails: a cache of capacity 0 holds one entry after one \<open>set\<close> (there
  is nothing to evict), and a cache of capacity 1 with the strategy WRITE_THROUGH, for
  which \<open>_evict_entries\<close> has no branch, holds two entries after two.
\<close>

theorem cache_capacity_counterexample:
  "let cd = \<lparr>pickle_dumps = (\<lambda>v. []), pickle_loads = (\<lambda>b. Inl (OtherException ''UnpicklingError'')),
             gzip_compress = (\<lambda>b. b), gzip_decompress = (\<lambda>b. Inr b)\<rparr>;
       cm0 = cache_run cd [Set 0 ''a'' (PInt 1) None False]
               (SmartCacheManager_init 0 (Some 3600) LRU True);
       cm1 = cache_run cd [Set 0 ''a'' (PInt 1) None False, Set 1 ''b'' (PInt 2) None False]
               (SmartCacheManager_init 1 (Some 3600) WRITE_THROUGH True)
   in max_size cm0 = 0 \<and> length (cache cm0) = 1 \<and> evictions cm0 = 0 \<and>
      max_size cm1 = 1 \<and> length (cache cm1) = 2 \<and> evictions cm1 = 0"
proof -
  define cd where "cd = \<lparr>pickle_dumps = (\<lambda>v. []),
      pickle_loads = (\<lambda>b. Inl (OtherException ''UnpicklingError'')),
      gzip_compress = (\<lambda>b. b), gzip_decompress = (\<lambda>b. Inr b)\<rparr>"
  define i0 where "i0 = SmartCacheManager_init 0 (Some 3600) LRU True"
  define cm0 where "cm0 = cache_run cd [Set 0 ''a'' (PInt 1) None False] i0"
  define i1 where "i1 = SmartCacheManager_init 1 (Some 3600) WRITE_THROUGH True"
  define j1 where "j1 = snd (set_entry cd 0 ''a'' (PInt 1) None False i1)"
  define cm1 where "cm1 = cache_run cd
      [Set 0 ''a'' (PInt 1) None False, Set 1 ''b'' (PInt 2) None False] i1"
  have f0: "cache i0 = []" "max_size i0 = 0" "strategy i0 = LRU" "access_order i0 = []"
    "evictions i0 = 0"
    by (simp_all add: i0_def SmartCacheManager_init_def)
  have e0: "evict_entries 0 1 i0 = i0" by (simp add: evict_entries_def f0)
  have r0: "make_room 0 ''a'' i0 = i0" by (simp add: make_room_def e0)
  have A: "max_size cm0 = 0" "length (cache cm0) = 1" "evictions cm0 = 0"
    by (simp_all add: cm0_def set_entry_fields r0 f0)
  have f1: "cache i1 = []" "max_size i1 = 1" "strategy i1 = WRITE_THROUGH" "evictions i1 = 0"
    by (simp_all add: i1_def SmartCacheManager_init_def)
  have r1: "make_room 0 ''a'' i1 = i1" by (simp add: make_room_def f1)
  have g1: "length (cache j1) = 1" "max_size j1 = 1" "strategy j1 = WRITE_THROUGH"
    "evictions j1 = 0" "''b'' \<notin> fst ` set (cache j1)"
    by (simp_all add: j1_def set_entry_fields r1 f1)
  have e1: "evict_entries 1 1 j1 = j1" by (simp add: evict_entries_def g1)
  have r2: "make_room 1 ''b'' j1 = j1" by (simp add: make_room_def e1)
  have c1: "cm1 = snd (set_entry cd 1 ''b'' (PInt 2) None False j1)"
    by (simp add: cm1_def j1_def)
  have B: "max_size cm1 = 1" "length (cache cm1) = 2" "evictions cm1 = 0"
    using g1 by (simp_all add: c1 set_entry_fields r2 length_update_if)
  have main: "max_size cm0 = 0 \<and> length (cache cm0) = 1 \<and> evictions cm0 = 0 \<and>
      max_size cm1 = 1 \<and> length (cache cm1) = 2 \<and> evictions cm1 = 0"
    by (intro conjI A B)
  show ?thesis unfolding Let_def using main[unfolded cm0_def cm1_def i0_def i1_def cd_def] .
qed

subsection \<open>Consolidation\<close>







end
